theory Spec2Isabelle
  imports Main "HOL-Library.Word"
begin

section \<open>The backup tool: data model\<close>

text \<open>
  The program keeps three SQLite tables (\<^verbatim>\<open>snapshots\<close>, \<^verbatim>\<open>files\<close>, \<^verbatim>\<open>file_data\<close>) and
  reads and writes regular files. A table is modelled as the list of its rows in scan
  order. Rows are only ever added at the end of a table: \<^verbatim>\<open>files\<close> and \<^verbatim>\<open>file_data\<close>
  get the next implicit rowid, \<^verbatim>\<open>snapshots\<close> gets the next AUTOINCREMENT id.
  Integers are unbounded (Python \<^verbatim>\<open>int\<close>; SQLite ids stay far below \<open>2^63\<close>).
\<close>

type_synonym bytes = "8 word list"
type_synonym digest = string
type_synonym path = string

record snapshot_row =
  s_id :: int
  s_timestamp :: string

record file_row =
  f_snapshot_id :: int
  f_path :: path
  f_hash :: digest
  f_size :: int

record blob_row =
  b_hash :: digest
  b_content :: bytes
  b_size :: int

text \<open>
  \<open>sqlite_sequence\<close> is the counter SQLite keeps for an AUTOINCREMENT column: the
  largest id the table \<^verbatim>\<open>snapshots\<close> has ever held.
\<close>

record database =
  snapshots :: "snapshot_row list"
  files :: "file_row list"
  file_data :: "blob_row list"
  sqlite_sequence :: int

text \<open>Every \<^verbatim>\<open>print\<close> of the program is one message; the format string is the constructor.\<close>

datatype message =
    SnapshotCreated int int
  | ListHeader
  | ListRow int string int
  | Restored int path
  | Pruned int
  | CorruptionDetected digest
  | AllVerified

text \<open>
  The world an operation runs in: the database file, the regular files of the file
  system that \<^verbatim>\<open>restore\<close> writes (full path to content; directories are implicit), and
  what has been printed. The database file is taken to lie outside the restored paths.
\<close>

record world =
  db :: database
  fs :: "path \<rightharpoonup> bytes"
  stdout :: "message list"

text \<open>
  What \<^verbatim>\<open>Path(target_directory).rglob("*")\<close> meets: each path below the directory,
  relative to it, in enumeration order, with what it is. On a path that is missing or
  is not a directory \<^verbatim>\<open>rglob\<close> yields nothing and raises nothing.
\<close>

datatype entry = RegularFile bytes | Subdirectory | Special

datatype target = Missing | NotDirectory | Directory "(path \<times> entry) list"

datatype error = FileNotFoundError | IntegrityError

section \<open>The operations\<close>

subsection \<open>\<^verbatim>\<open>_init_db\<close>\<close>

text \<open>\<^verbatim>\<open>CREATE TABLE IF NOT EXISTS\<close>: a database that exists is left as it is.\<close>

definition empty_db :: database where
  "empty_db = \<lparr>snapshots = [], files = [], file_data = [], sqlite_sequence = 0\<rparr>"

definition init_db :: "database option \<Rightarrow> database" where
  "init_db existing = (case existing of None \<Rightarrow> empty_db | Some d \<Rightarrow> d)"

definition fresh_world :: world where
  "fresh_world = \<lparr>db = init_db None, fs = Map.empty, stdout = []\<rparr>"

subsection \<open>\<^verbatim>\<open>_hash_file\<close>\<close>

text \<open>
  \<^verbatim>\<open>hashlib.sha256\<close> is a parameter \<open>H\<close> of the model. A hasher object is the bytes fed
  to it so far: \<^verbatim>\<open>update\<close> appends, \<^verbatim>\<open>hexdigest\<close> is \<open>H\<close> of the whole. The loop
  \<^verbatim>\<open>while chunk := f.read(8192)\<close> stops at the first empty read.
\<close>

function read_chunks :: "bytes \<Rightarrow> bytes \<Rightarrow> bytes" where
  "read_chunks hasher rest =
     (let chunk = take 8192 rest
      in if chunk = [] then hasher else read_chunks (hasher @ chunk) (drop 8192 rest))"
  by pat_completeness auto
termination
  by (relation "measure (\<lambda>(hasher, rest). length rest)") auto

declare read_chunks.simps [simp del]

text \<open>
  A stand-in for SHA-256 that has no collisions at all, for evaluating the model on
  concrete inputs: the bytes themselves, read as characters.
\<close>

definition demo_hash :: "bytes \<Rightarrow> digest" where
  "demo_hash content = map (\<lambda>b. char_of (unat b)) content"

definition hash_file :: "(bytes \<Rightarrow> digest) \<Rightarrow> bytes \<Rightarrow> digest \<times> int" where
  "hash_file H content = (H (read_chunks [] content), int (length content))"

subsection \<open>The SQL statements\<close>

text \<open>
  \<^verbatim>\<open>INSERT INTO snapshots (timestamp) VALUES (?)\<close> with
  \<^verbatim>\<open>id INTEGER PRIMARY KEY AUTOINCREMENT\<close>: the new id is one more than the largest id
  the table has ever held; the result carries \<^verbatim>\<open>cursor.lastrowid\<close>.
\<close>

definition next_rowid :: "database \<Rightarrow> int" where
  "next_rowid d = fold max (map s_id (snapshots d)) (sqlite_sequence d) + 1"

definition insert_snapshot :: "database \<Rightarrow> string \<Rightarrow> database \<times> int" where
  "insert_snapshot d ts =
     (let new_id = next_rowid d
      in (d\<lparr>snapshots := snapshots d @ [\<lparr>s_id = new_id, s_timestamp = ts\<rparr>],
            sqlite_sequence := new_id\<rparr>, new_id))"

text \<open>
  \<^verbatim>\<open>INSERT INTO files ...\<close>: with \<^verbatim>\<open>PRAGMA foreign_keys = ON\<close> the row is refused
  unless its \<^verbatim>\<open>snapshot_id\<close> is the id of a snapshot.
\<close>

definition insert_file :: "database \<Rightarrow> file_row \<Rightarrow> error + database" where
  "insert_file d r =
     (if f_snapshot_id r \<in> set (map s_id (snapshots d))
      then Inr (d\<lparr>files := files d @ [r]\<rparr>)
      else Inl IntegrityError)"

text \<open>\<^verbatim>\<open>SELECT ... FROM file_data WHERE hash = ?\<close> followed by \<^verbatim>\<open>fetchone()\<close>.\<close>

definition select_blob :: "database \<Rightarrow> digest \<Rightarrow> blob_row option" where
  "select_blob d h = find (\<lambda>b. b_hash b = h) (file_data d)"

text \<open>\<^verbatim>\<open>INSERT INTO file_data ...\<close>: \<^verbatim>\<open>hash\<close> is the primary key, a second row is refused.\<close>

definition insert_blob :: "database \<Rightarrow> blob_row \<Rightarrow> error + database" where
  "insert_blob d r =
     (if b_hash r \<in> set (map b_hash (file_data d))
      then Inl IntegrityError
      else Inr (d\<lparr>file_data := file_data d @ [r]\<rparr>))"

text \<open>\<^verbatim>\<open>SELECT path, hash FROM files WHERE snapshot_id = ?\<close>.\<close>

definition select_files :: "database \<Rightarrow> int \<Rightarrow> (path \<times> digest) list" where
  "select_files d sid =
     map (\<lambda>f. (f_path f, f_hash f)) (filter (\<lambda>f. f_snapshot_id f = sid) (files d))"

text \<open>
  \<^verbatim>\<open>DELETE FROM snapshots WHERE id = ?\<close>: \<^verbatim>\<open>ON DELETE CASCADE\<close> removes the
  \<^verbatim>\<open>files\<close> rows that refer to a deleted snapshot.
\<close>

definition delete_snapshot :: "database \<Rightarrow> int \<Rightarrow> database" where
  "delete_snapshot d sid =
     (let deleted = map s_id (filter (\<lambda>s. s_id s = sid) (snapshots d))
      in d\<lparr>snapshots := filter (\<lambda>s. s_id s \<noteq> sid) (snapshots d),
           files := filter (\<lambda>f. f_snapshot_id f \<notin> set deleted) (files d)\<rparr>)"

text \<open>\<^verbatim>\<open>DELETE FROM files WHERE snapshot_id = ?\<close>.\<close>

definition delete_files :: "database \<Rightarrow> int \<Rightarrow> database" where
  "delete_files d sid = d\<lparr>files := filter (\<lambda>f. f_snapshot_id f \<noteq> sid) (files d)\<rparr>"

subsection \<open>\<^verbatim>\<open>snapshot\<close>\<close>

text \<open>Lines 78 to 82: the blob is inserted unless a row with its hash is found.\<close>

definition put_if_absent :: "database \<Rightarrow> digest \<Rightarrow> bytes \<Rightarrow> int \<Rightarrow> error + database" where
  "put_if_absent d h content sz =
     (case select_blob d h of
        Some found \<Rightarrow> Inr d
      | None \<Rightarrow> insert_blob d \<lparr>b_hash = h, b_content = content, b_size = sz\<rparr>)"

text \<open>
  The body of the loop for one regular file: hash it, insert its \<^verbatim>\<open>files\<close> row, then
  insert its blob if absent. \<open>file_entry\<close> is the row, \<open>write_file_entry\<close> the state
  right after line 75.
\<close>

definition file_entry :: "(bytes \<Rightarrow> digest) \<Rightarrow> int \<Rightarrow> path \<Rightarrow> bytes \<Rightarrow> file_row" where
  "file_entry H sid rel content =
     (let (file_hash, file_size) = hash_file H content
      in \<lparr>f_snapshot_id = sid, f_path = rel, f_hash = file_hash, f_size = file_size\<rparr>)"

definition write_file_entry ::
  "(bytes \<Rightarrow> digest) \<Rightarrow> int \<Rightarrow> path \<Rightarrow> bytes \<Rightarrow> database \<Rightarrow> error + database" where
  "write_file_entry H sid rel content d = insert_file d (file_entry H sid rel content)"

definition process_file ::
  "(bytes \<Rightarrow> digest) \<Rightarrow> int \<Rightarrow> path \<Rightarrow> bytes \<Rightarrow> database \<Rightarrow> error + database" where
  "process_file H sid rel content d =
     (let (file_hash, file_size) = hash_file H content
      in case write_file_entry H sid rel content d of
           Inl e \<Rightarrow> Inl e
         | Inr d1 \<Rightarrow> put_if_absent d1 file_hash content file_size)"

fun rglob :: "target \<Rightarrow> (path \<times> entry) list" where
  "rglob (Directory es) = es"
| "rglob Missing = []"
| "rglob NotDirectory = []"

text \<open>The loop over \<^verbatim>\<open>rglob("*")\<close>; only entries with \<^verbatim>\<open>is_file()\<close> are processed.\<close>

fun snapshot_loop ::
  "(bytes \<Rightarrow> digest) \<Rightarrow> int \<Rightarrow> (path \<times> entry) list \<Rightarrow> database \<times> int \<Rightarrow> error + database \<times> int"
where
  "snapshot_loop H sid [] (d, total_size) = Inr (d, total_size)"
| "snapshot_loop H sid ((rel, RegularFile content) # rest) (d, total_size) =
     (case process_file H sid rel content d of
        Inl e \<Rightarrow> Inl e
      | Inr d' \<Rightarrow> snapshot_loop H sid rest (d', total_size + snd (hash_file H content)))"
| "snapshot_loop H sid ((rel, Subdirectory) # rest) (d, total_size) =
     snapshot_loop H sid rest (d, total_size)"
| "snapshot_loop H sid ((rel, Special) # rest) (d, total_size) =
     snapshot_loop H sid rest (d, total_size)"

text \<open>
  \<open>ts\<close> is what \<^verbatim>\<open>time.strftime\<close> returns. An exception inside \<^verbatim>\<open>with conn\<close> rolls
  the transaction back, so an error leaves the world as it was; otherwise the
  transaction is committed, the message printed and the id returned.
\<close>

definition snapshot ::
  "(bytes \<Rightarrow> digest) \<Rightarrow> string \<Rightarrow> target \<Rightarrow> world \<Rightarrow> error + world \<times> int" where
  "snapshot H ts target_directory w =
     (let (d1, snapshot_id) = insert_snapshot (db w) ts
      in case snapshot_loop H snapshot_id (rglob target_directory) (d1, 0) of
           Inl e \<Rightarrow> Inl e
         | Inr (d2, total_size) \<Rightarrow>
             Inr (w\<lparr>db := d2, stdout := stdout w @ [SnapshotCreated snapshot_id total_size]\<rparr>,
                  snapshot_id))"

subsection \<open>\<^verbatim>\<open>list_snapshots\<close>\<close>

text \<open>
  \<^verbatim>\<open>SELECT s.id, s.timestamp, COALESCE(SUM(f.size), 0) FROM snapshots s
  LEFT JOIN files f ON s.id = f.snapshot_id GROUP BY s.id\<close>.
  The join keeps a snapshot without files as one row with NULL on the right; the groups
  come out in the order in which the scan of \<^verbatim>\<open>snapshots\<close> first meets their id;
  \<^verbatim>\<open>SUM\<close> skips NULL and is NULL when nothing is left.
\<close>

definition left_join :: "database \<Rightarrow> (snapshot_row \<times> file_row option) list" where
  "left_join d =
     concat (map (\<lambda>s. let matching = filter (\<lambda>f. f_snapshot_id f = s_id s) (files d)
                      in if matching = [] then [(s, None)]
                         else map (\<lambda>f. (s, Some f)) matching)
                 (snapshots d))"

fun new_keys :: "int list \<Rightarrow> int list \<Rightarrow> int list" where
  "new_keys seen [] = []"
| "new_keys seen (k # ks) =
     (if k \<in> set seen then new_keys seen ks else k # new_keys (k # seen) ks)"

definition group_keys :: "(snapshot_row \<times> file_row option) list \<Rightarrow> int list" where
  "group_keys joined = new_keys [] (map (\<lambda>r. s_id (fst r)) joined)"

definition group_by_id ::
  "(snapshot_row \<times> file_row option) list \<Rightarrow> (snapshot_row \<times> file_row option) list list" where
  "group_by_id joined =
     map (\<lambda>k. filter (\<lambda>r. s_id (fst r) = k) joined) (group_keys joined)"

definition sql_sum :: "int option list \<Rightarrow> int option" where
  "sql_sum xs = (case concat (map (\<lambda>x. case x of None \<Rightarrow> [] | Some v \<Rightarrow> [v]) xs) of
                   [] \<Rightarrow> None
                 | v # vs \<Rightarrow> Some (sum_list (v # vs)))"

definition coalesce :: "int option \<Rightarrow> int \<Rightarrow> int" where
  "coalesce x dflt = (case x of None \<Rightarrow> dflt | Some v \<Rightarrow> v)"

definition list_query :: "database \<Rightarrow> (int \<times> string \<times> int) list" where
  "list_query d =
     concat (map (\<lambda>g. case g of
                        [] \<Rightarrow> []
                      | r # rs \<Rightarrow> [(s_id (fst r), s_timestamp (fst r),
                                    coalesce (sql_sum (map (\<lambda>x. map_option f_size (snd x)) (r # rs))) 0)])
                 (group_by_id (left_join d)))"

definition list_snapshots :: "world \<Rightarrow> world" where
  "list_snapshots w =
     w\<lparr>stdout := stdout w @ ListHeader # map (\<lambda>(i, ts, total). ListRow i ts total) (list_query (db w))\<rparr>"

subsection \<open>\<^verbatim>\<open>restore\<close>\<close>

text \<open>\<^verbatim>\<open>output_directory / rel_path\<close> for a relative \<^verbatim>\<open>rel_path\<close>.\<close>

definition join_path :: "path \<Rightarrow> path \<Rightarrow> path" where
  "join_path dir rel = dir @ ''/'' @ rel"

text \<open>
  \<^verbatim>\<open>SELECT content FROM file_data WHERE hash = ?\<close>, \<^verbatim>\<open>fetchone()\<close>: a row is a
  one-element tuple, which is true in \<^verbatim>\<open>if content:\<close> whatever the bytes are.
\<close>

definition select_content :: "database \<Rightarrow> digest \<Rightarrow> bytes option" where
  "select_content d h = map_option b_content (select_blob d h)"

fun restore_loop ::
  "database \<Rightarrow> path \<Rightarrow> (path \<times> digest) list \<Rightarrow> (path \<rightharpoonup> bytes) \<Rightarrow> (path \<rightharpoonup> bytes)" where
  "restore_loop d out [] fsys = fsys"
| "restore_loop d out ((rel_path, file_hash) # rest) fsys =
     (case select_content d file_hash of
        Some content \<Rightarrow> restore_loop d out rest (fsys(join_path out rel_path \<mapsto> content))
      | None \<Rightarrow> restore_loop d out rest fsys)"

definition restore :: "int \<Rightarrow> path \<Rightarrow> world \<Rightarrow> world" where
  "restore snapshot_number output_directory w =
     w\<lparr>fs := restore_loop (db w) output_directory (select_files (db w) snapshot_number) (fs w),
       stdout := stdout w @ [Restored snapshot_number output_directory]\<rparr>"

subsection \<open>\<^verbatim>\<open>prune\<close>\<close>

definition prune :: "int \<Rightarrow> world \<Rightarrow> world" where
  "prune snapshot_number w =
     w\<lparr>db := delete_files (delete_snapshot (db w) snapshot_number) snapshot_number,
       stdout := stdout w @ [Pruned snapshot_number]\<rparr>"

subsection \<open>\<^verbatim>\<open>check\<close>\<close>

text \<open>The loop returns at the first row whose content does not hash to its key.\<close>

fun check_loop :: "(bytes \<Rightarrow> digest) \<Rightarrow> blob_row list \<Rightarrow> message" where
  "check_loop H [] = AllVerified"
| "check_loop H (b # rest) =
     (if H (b_content b) \<noteq> b_hash b then CorruptionDetected (b_hash b)
      else check_loop H rest)"

definition check :: "(bytes \<Rightarrow> digest) \<Rightarrow> world \<Rightarrow> world" where
  "check H w = w\<lparr>stdout := stdout w @ [check_loop H (file_data (db w))]\<rparr>"

subsection \<open>Sequences of commands\<close>

text \<open>
  The command line runs one operation per call on the same database file. A run
  collects the ids that \<^verbatim>\<open>snapshot\<close> returned, in the order of the calls.
\<close>

datatype command =
    Snapshot string target
  | ListSnapshots
  | Restore int path
  | Prune int
  | Check

fun run :: "(bytes \<Rightarrow> digest) \<Rightarrow> command list \<Rightarrow> world \<Rightarrow> world \<times> int list" where
  "run H [] w = (w, [])"
| "run H (Snapshot ts t # cs) w =
     (case snapshot H ts t w of
        Inl e \<Rightarrow> run H cs w
      | Inr (w', sid) \<Rightarrow> (let (w'', ids) = run H cs w' in (w'', sid # ids)))"
| "run H (ListSnapshots # cs) w = run H cs (list_snapshots w)"
| "run H (Restore n out # cs) w = run H cs (restore n out w)"
| "run H (Prune n # cs) w = run H cs (prune n w)"
| "run H (Check # cs) w = run H cs (check H w)"

section \<open>Predicates used in the statements\<close>

text \<open>The regular files of a walk, and the tree below a directory of the file system.\<close>

definition regular_files :: "(path \<times> entry) list \<Rightarrow> (path \<times> bytes) list" where
  "regular_files es = concat (map (\<lambda>(p, e). case e of RegularFile c \<Rightarrow> [(p, c)] | _ \<Rightarrow> []) es)"


text \<open>Every stored blob hashes to its key (what \<^verbatim>\<open>check\<close> verifies).\<close>

definition store_ok :: "(bytes \<Rightarrow> digest) \<Rightarrow> database \<Rightarrow> bool" where
  "store_ok H d = list_all (\<lambda>b. H (b_content b) = b_hash b) (file_data d)"

text \<open>The primary key of \<^verbatim>\<open>file_data\<close>: at most one row for a digest.\<close>

definition blob_count :: "database \<Rightarrow> digest \<Rightarrow> nat" where
  "blob_count d h = length (filter (\<lambda>b. b_hash b = h) (file_data d))"

definition one_blob_per_digest :: "database \<Rightarrow> bool" where
  "one_blob_per_digest d = distinct (map b_hash (file_data d))"

text \<open>Every \<^verbatim>\<open>files\<close> row names a stored blob.\<close>

definition blobs_present :: "database \<Rightarrow> bool" where
  "blobs_present d = list_all (\<lambda>f. select_blob d (f_hash f) \<noteq> None) (files d)"

text \<open>
  The foreign key of \<^verbatim>\<open>files\<close>, and the storage order of \<^verbatim>\<open>snapshots\<close>: SQLite keeps a
  table with an integer primary key in ascending order of that key.
\<close>

definition foreign_keys_ok :: "database \<Rightarrow> bool" where
  "foreign_keys_ok d = list_all (\<lambda>f. f_snapshot_id f \<in> set (map s_id (snapshots d))) (files d)"

definition snapshots_ascending :: "database \<Rightarrow> bool" where
  "snapshots_ascending d = sorted_wrt (<) (map s_id (snapshots d))"

text \<open>The properties together; every state the commands reach from a new database has them.\<close>

definition db_invariant :: "(bytes \<Rightarrow> digest) \<Rightarrow> database \<Rightarrow> bool" where
  "db_invariant H d \<longleftrightarrow>
     snapshots_ascending d \<and> foreign_keys_ok d \<and> one_blob_per_digest d \<and> store_ok H d
     \<and> blobs_present d"

section \<open>Basic facts about the operations\<close>

lemma read_chunks_append: "read_chunks hasher rest = hasher @ rest"
proof (induction hasher rest rule: read_chunks.induct)
  case (1 hasher rest)
  show ?case
  proof (cases "take 8192 rest = []")
    case True
    then have "rest = []" by simp
    then show ?thesis by (simp add: read_chunks.simps[of hasher "[]"])
  next
    case False
    then have "read_chunks hasher rest = read_chunks (hasher @ take 8192 rest) (drop 8192 rest)"
      by (subst read_chunks.simps) (simp add: Let_def)
    also have "\<dots> = (hasher @ take 8192 rest) @ drop 8192 rest"
      using "1.IH"[OF refl False] .
    finally show ?thesis by simp
  qed
qed

lemma hash_file_eq: "hash_file H content = (H content, int (length content))"
  by (simp add: hash_file_def read_chunks_append)

lemma file_entry_eq:
  "file_entry H sid rel c = \<lparr>f_snapshot_id = sid, f_path = rel, f_hash = H c, f_size = int (length c)\<rparr>"
  by (simp add: file_entry_def hash_file_eq)

lemma fold_max_ge: "a \<le> fold max xs (a::int)"
proof (induction xs arbitrary: a)
  case Nil
  show ?case by simp
next
  case (Cons x xs)
  have "a \<le> max x a" by simp
  also have "\<dots> \<le> fold max xs (max x a)" by (rule Cons.IH)
  finally show ?case by simp
qed

lemma fold_max_mem: "x \<in> set xs \<Longrightarrow> x \<le> fold max xs (a::int)"
proof (induction xs arbitrary: a)
  case Nil then show ?case by simp
next
  case (Cons y ys)
  show ?case
  proof (cases "x = y")
    case True
    have "y \<le> max y a" by simp
    also have "\<dots> \<le> fold max ys (max y a)" by (rule fold_max_ge)
    finally show ?thesis using True by simp
  next
    case False
    with Cons show ?thesis by simp
  qed
qed

lemma select_blob_None: "select_blob d h = None \<longleftrightarrow> h \<notin> set (map b_hash (file_data d))"
  by (auto simp: select_blob_def find_None_iff)

lemma write_file_entry_eq:
  assumes "sid \<in> set (map s_id (snapshots d))"
  shows "write_file_entry H sid rel c d = Inr (d\<lparr>files := files d @ [file_entry H sid rel c]\<rparr>)"
  using assms by (simp add: write_file_entry_def insert_file_def file_entry_eq)

lemma put_if_absent_eq:
  "put_if_absent d h c sz =
     Inr (if select_blob d h = None
          then d\<lparr>file_data := file_data d @ [\<lparr>b_hash = h, b_content = c, b_size = sz\<rparr>]\<rparr>
          else d)"
proof (cases "select_blob d h")
  case None
  then have "h \<notin> set (map b_hash (file_data d))" by (simp add: select_blob_None)
  with None show ?thesis by (simp add: put_if_absent_def insert_blob_def)
next
  case (Some b)
  then show ?thesis by (simp add: put_if_absent_def)
qed

lemma process_file_eq:
  assumes "sid \<in> set (map s_id (snapshots d))"
  shows "process_file H sid rel c d =
     Inr (d\<lparr>files := files d @ [file_entry H sid rel c],
            file_data := (if select_blob d (H c) = None
                          then file_data d @ [\<lparr>b_hash = H c, b_content = c, b_size = int (length c)\<rparr>]
                          else file_data d)\<rparr>)"
proof -
  let ?d1 = "d\<lparr>files := files d @ [file_entry H sid rel c]\<rparr>"
  have s: "select_blob ?d1 (H c) = select_blob d (H c)" by (simp add: select_blob_def)
  have "process_file H sid rel c d = put_if_absent ?d1 (H c) c (int (length c))"
    by (simp add: process_file_def hash_file_eq write_file_entry_eq[OF assms])
  then show ?thesis by (simp add: put_if_absent_eq s)
qed


lemma regular_files_simps [simp]:
  "regular_files [] = []"
  "regular_files ((p, RegularFile c) # es) = (p, c) # regular_files es"
  "regular_files ((p, Subdirectory) # es) = regular_files es"
  "regular_files ((p, Special) # es) = regular_files es"
  by (simp_all add: regular_files_def)

lemma regular_files_mem: "(p, c) \<in> set (regular_files es) \<longleftrightarrow> (p, RegularFile c) \<in> set es"
proof (induction es)
  case Nil
  show ?case by simp
next
  case (Cons a es)
  obtain q e where a: "a = (q, e)" by (cases a)
  show ?case using Cons by (cases e) (auto simp: a)
qed

text \<open>
  The invariant rule of the loop: \<open>P done d\<close> relates the database to the regular
  files processed so far.
\<close>

lemma snapshot_loop_rule:
  assumes "sid \<in> set (map s_id (snapshots d))" and "P done d"
    and step: "\<And>done0 d0 d1 rel c. P done0 d0 \<Longrightarrow>
                 sid \<in> set (map s_id (snapshots d0)) \<Longrightarrow>
                 process_file H sid rel c d0 = Inr d1 \<Longrightarrow> P (done0 @ [(rel, c)]) d1"
  shows "\<exists>d'. snapshot_loop H sid es (d, t) =
                 Inr (d', t + sum_list (map (\<lambda>(p, c). int (length c)) (regular_files es)))
              \<and> P (done @ regular_files es) d'
              \<and> snapshots d' = snapshots d \<and> sqlite_sequence d' = sqlite_sequence d
              \<and> files d' = files d @ map (\<lambda>(p, c). file_entry H sid p c) (regular_files es)"
  using assms(1,2)
proof (induction es arbitrary: d t "done")
  case Nil
  then show ?case by simp
next
  case (Cons a es)
  obtain rel e where a: "a = (rel, e)" by (cases a)
  show ?case
  proof (cases e)
    case (RegularFile c)
    define d1 where "d1 = d\<lparr>files := files d @ [file_entry H sid rel c],
            file_data := (if select_blob d (H c) = None
                          then file_data d @ [\<lparr>b_hash = H c, b_content = c, b_size = int (length c)\<rparr>]
                          else file_data d)\<rparr>"
    have pf: "process_file H sid rel c d = Inr d1"
      unfolding d1_def by (rule process_file_eq[OF Cons.prems(1)])
    have P1: "P (done @ [(rel, c)]) d1"
      using Cons.prems(2) Cons.prems(1) pf by (rule step)
    have sn: "snapshots d1 = snapshots d" and sq: "sqlite_sequence d1 = sqlite_sequence d"
      and fl: "files d1 = files d @ [file_entry H sid rel c]"
      by (simp_all add: d1_def)
    have in1: "sid \<in> set (map s_id (snapshots d1))" using Cons.prems(1) sn by simp
    have "\<exists>d'. snapshot_loop H sid es (d1, t + int (length c)) =
                 Inr (d', t + int (length c) + sum_list (map (\<lambda>(p, c). int (length c)) (regular_files es)))
              \<and> P ((done @ [(rel, c)]) @ regular_files es) d'
              \<and> snapshots d' = snapshots d1 \<and> sqlite_sequence d' = sqlite_sequence d1
              \<and> files d' = files d1 @ map (\<lambda>(p, c). file_entry H sid p c) (regular_files es)"
      by (rule Cons.IH[OF in1 P1])
    then obtain d' where d': "snapshot_loop H sid es (d1, t + int (length c)) =
                 Inr (d', t + int (length c) + sum_list (map (\<lambda>(p, c). int (length c)) (regular_files es)))"
      "P ((done @ [(rel, c)]) @ regular_files es) d'"
      "snapshots d' = snapshots d1" "sqlite_sequence d' = sqlite_sequence d1"
      "files d' = files d1 @ map (\<lambda>(p, c). file_entry H sid p c) (regular_files es)"
      by blast
    have "snapshot_loop H sid (a # es) (d, t) = snapshot_loop H sid es (d1, t + int (length c))"
      by (simp add: a RegularFile pf hash_file_eq)
    with d' sn sq fl show ?thesis
      by (simp add: a RegularFile add.assoc)
  next
    case Subdirectory
    have "\<exists>d'. snapshot_loop H sid es (d, t) =
                 Inr (d', t + sum_list (map (\<lambda>(p, c). int (length c)) (regular_files es)))
              \<and> P (done @ regular_files es) d'
              \<and> snapshots d' = snapshots d \<and> sqlite_sequence d' = sqlite_sequence d
              \<and> files d' = files d @ map (\<lambda>(p, c). file_entry H sid p c) (regular_files es)"
      by (rule Cons.IH[OF Cons.prems(1) Cons.prems(2)])
    then show ?thesis by (simp add: a Subdirectory)
  next
    case Special
    have "\<exists>d'. snapshot_loop H sid es (d, t) =
                 Inr (d', t + sum_list (map (\<lambda>(p, c). int (length c)) (regular_files es)))
              \<and> P (done @ regular_files es) d'
              \<and> snapshots d' = snapshots d \<and> sqlite_sequence d' = sqlite_sequence d
              \<and> files d' = files d @ map (\<lambda>(p, c). file_entry H sid p c) (regular_files es)"
      by (rule Cons.IH[OF Cons.prems(1) Cons.prems(2)])
    then show ?thesis by (simp add: a Special)
  qed
qed

lemma next_rowid_gt_seq: "sqlite_sequence d < next_rowid d"
proof -
  have "sqlite_sequence d \<le> fold max (map s_id (snapshots d)) (sqlite_sequence d)"
    by (rule fold_max_ge)
  then show ?thesis by (simp add: next_rowid_def)
qed

lemma next_rowid_gt_ids: "s \<in> set (snapshots d) \<Longrightarrow> s_id s < next_rowid d"
proof -
  assume "s \<in> set (snapshots d)"
  then have "s_id s \<in> set (map s_id (snapshots d))" by simp
  then have "s_id s \<le> fold max (map s_id (snapshots d)) (sqlite_sequence d)"
    by (rule fold_max_mem)
  then show ?thesis by (simp add: next_rowid_def)
qed

lemma insert_snapshot_eq:
  "insert_snapshot d ts =
     (d\<lparr>snapshots := snapshots d @ [\<lparr>s_id = next_rowid d, s_timestamp = ts\<rparr>],
        sqlite_sequence := next_rowid d\<rparr>, next_rowid d)"
  by (simp add: insert_snapshot_def Let_def)

lemma snapshot_rule:
  assumes "P [] (fst (insert_snapshot (db w) ts))"
    and step: "\<And>done0 d0 d1 rel c. P done0 d0 \<Longrightarrow>
                 next_rowid (db w) \<in> set (map s_id (snapshots d0)) \<Longrightarrow>
                 process_file H (next_rowid (db w)) rel c d0 = Inr d1 \<Longrightarrow> P (done0 @ [(rel, c)]) d1"
  shows "\<exists>d'. snapshot H ts tgt w =
                 Inr (w\<lparr>db := d', stdout := stdout w @ [SnapshotCreated (next_rowid (db w))
                        (sum_list (map (\<lambda>(p, c). int (length c)) (regular_files (rglob tgt))))]\<rparr>,
                      next_rowid (db w))
              \<and> P (regular_files (rglob tgt)) d'
              \<and> snapshots d' = snapshots (db w) @ [\<lparr>s_id = next_rowid (db w), s_timestamp = ts\<rparr>]
              \<and> sqlite_sequence d' = next_rowid (db w)
              \<and> files d' = files (db w) @
                   map (\<lambda>(p, c). file_entry H (next_rowid (db w)) p c) (regular_files (rglob tgt))"
proof -
  define sid where "sid = next_rowid (db w)"
  define d1 where "d1 = (db w)\<lparr>snapshots := snapshots (db w) @ [\<lparr>s_id = sid, s_timestamp = ts\<rparr>],
        sqlite_sequence := sid\<rparr>"
  have ins: "insert_snapshot (db w) ts = (d1, sid)"
    by (simp add: insert_snapshot_eq d1_def sid_def)
  have d1: "snapshots d1 = snapshots (db w) @ [\<lparr>s_id = sid, s_timestamp = ts\<rparr>]"
    "sqlite_sequence d1 = sid" "files d1 = files (db w)"
    by (simp_all add: d1_def)
  have mem: "sid \<in> set (map s_id (snapshots d1))" by (simp add: d1)
  have P1: "P [] d1" using assms(1) by (simp add: ins)
  have "\<exists>d'. snapshot_loop H sid (rglob tgt) (d1, 0) =
                 Inr (d', 0 + sum_list (map (\<lambda>(p, c). int (length c)) (regular_files (rglob tgt))))
              \<and> P ([] @ regular_files (rglob tgt)) d'
              \<and> snapshots d' = snapshots d1 \<and> sqlite_sequence d' = sqlite_sequence d1
              \<and> files d' = files d1 @ map (\<lambda>(p, c). file_entry H sid p c) (regular_files (rglob tgt))"
    by (rule snapshot_loop_rule[where P = P and H = H and t = 0 and es = "rglob tgt"
          and d = d1 and sid = sid and ?done = "[]", OF mem P1], rule step[folded sid_def])
  then obtain d' where d': "snapshot_loop H sid (rglob tgt) (d1, 0) =
                 Inr (d', sum_list (map (\<lambda>(p, c). int (length c)) (regular_files (rglob tgt))))"
     "P (regular_files (rglob tgt)) d'" "snapshots d' = snapshots d1"
     "sqlite_sequence d' = sqlite_sequence d1"
     "files d' = files d1 @ map (\<lambda>(p, c). file_entry H sid p c) (regular_files (rglob tgt))"
    by auto
  have "snapshot H ts tgt w =
          Inr (w\<lparr>db := d', stdout := stdout w @ [SnapshotCreated sid
                        (sum_list (map (\<lambda>(p, c). int (length c)) (regular_files (rglob tgt))))]\<rparr>, sid)"
    by (simp add: snapshot_def ins d'(1))
  with d'(2-5) d1 show ?thesis unfolding sid_def by (intro exI[of _ d']) simp
qed

lemma snapshot_total:
  "\<exists>d'. snapshot H ts tgt w =
                 Inr (w\<lparr>db := d', stdout := stdout w @ [SnapshotCreated (next_rowid (db w))
                        (sum_list (map (\<lambda>(p, c). int (length c)) (regular_files (rglob tgt))))]\<rparr>,
                      next_rowid (db w))
              \<and> snapshots d' = snapshots (db w) @ [\<lparr>s_id = next_rowid (db w), s_timestamp = ts\<rparr>]
              \<and> sqlite_sequence d' = next_rowid (db w)
              \<and> files d' = files (db w) @
                   map (\<lambda>(p, c). file_entry H (next_rowid (db w)) p c) (regular_files (rglob tgt))"
  using snapshot_rule[where P = "\<lambda>done d. True" and H = H and ts = ts and tgt = tgt and w = w] by simp

lemmas eval_defs = snapshot_def insert_snapshot_eq next_rowid_def fresh_world_def init_db_def
  empty_db_def process_file_def write_file_entry_def insert_file_def file_entry_eq hash_file_eq
  put_if_absent_def select_blob_def insert_blob_def demo_hash_def prune_def delete_snapshot_def
  delete_files_def restore_def select_files_def select_content_def check_def join_path_def
  list_snapshots_def

lemma db_restore [simp]: "db (restore n out w) = db w"
  by (simp add: restore_def)

lemma db_check [simp]: "db (check H w) = db w"
  by (simp add: check_def)

lemma db_list_snapshots [simp]: "db (list_snapshots w) = db w"
  by (simp add: list_snapshots_def)

lemma sqlite_sequence_prune [simp]: "sqlite_sequence (db (prune n w)) = sqlite_sequence (db w)"
  by (simp add: prune_def delete_files_def delete_snapshot_def Let_def)

lemma file_data_prune [simp]: "file_data (db (prune n w)) = file_data (db w)"
  by (simp add: prune_def delete_files_def delete_snapshot_def Let_def)

lemma snapshot_Inr:
  assumes "snapshot H ts tgt w = Inr (w', sid)"
  shows "sid = next_rowid (db w)" and "sqlite_sequence (db w') = sid"
proof -
  from snapshot_total[of H ts tgt w] obtain d' where
    "snapshot H ts tgt w = Inr (w\<lparr>db := d', stdout := stdout w @ [SnapshotCreated (next_rowid (db w))
                        (sum_list (map (\<lambda>(p, c). int (length c)) (regular_files (rglob tgt))))]\<rparr>,
                      next_rowid (db w))"
    and "sqlite_sequence d' = next_rowid (db w)" by blast
  with assms show "sid = next_rowid (db w)" and "sqlite_sequence (db w') = sid" by auto
qed

lemma run_Snapshot_ids:
  "snapshot H ts t w = Inr (w', sid) \<Longrightarrow>
     snd (run H (Snapshot ts t # cs) w) = sid # snd (run H cs w')"
  by (simp add: split_beta)

lemma run_ids_gt: "i \<in> set (snd (run H cmds w)) \<Longrightarrow> sqlite_sequence (db w) < i"
proof (induction cmds arbitrary: w)
  case Nil
  then show ?case by simp
next
  case (Cons c cs)
  show ?case
  proof (cases c)
    case (Snapshot ts t)
    show ?thesis
    proof (cases "snapshot H ts t w")
      case (Inl e)
      with Cons Snapshot show ?thesis by simp
    next
      case (Inr r)
      obtain w' sid where r: "r = (w', sid)" by (cases r)
      have sid: "sid = next_rowid (db w)" "sqlite_sequence (db w') = sid"
        using snapshot_Inr[OF Inr[unfolded r]] by simp_all
      have lt: "sqlite_sequence (db w) < sid" using sid(1) next_rowid_gt_seq by simp
      have eq: "snd (run H (c # cs) w) = sid # snd (run H cs w')"
        unfolding Snapshot by (rule run_Snapshot_ids[OF Inr[unfolded r]])
      from Cons.prems have "i = sid \<or> i \<in> set (snd (run H cs w'))"
        unfolding eq by simp
      then show ?thesis
      proof
        assume "i = sid" with lt show ?thesis by simp
      next
        assume "i \<in> set (snd (run H cs w'))"
        then have "sqlite_sequence (db w') < i" by (rule Cons.IH)
        with sid(2) lt show ?thesis by simp
      qed
    qed
  next
    case ListSnapshots
    with Cons.prems have "i \<in> set (snd (run H cs (list_snapshots w)))" by simp
    then have "sqlite_sequence (db (list_snapshots w)) < i" by (rule Cons.IH)
    then show ?thesis by simp
  next
    case (Restore n out)
    with Cons.prems have "i \<in> set (snd (run H cs (restore n out w)))" by simp
    then have "sqlite_sequence (db (restore n out w)) < i" by (rule Cons.IH)
    then show ?thesis by simp
  next
    case (Prune n)
    with Cons.prems have "i \<in> set (snd (run H cs (prune n w)))" by simp
    then have "sqlite_sequence (db (prune n w)) < i" by (rule Cons.IH)
    then show ?thesis by simp
  next
    case Check
    with Cons.prems have "i \<in> set (snd (run H cs (check H w)))" by simp
    then have "sqlite_sequence (db (check H w)) < i" by (rule Cons.IH)
    then show ?thesis by simp
  qed
qed

text \<open>What a snapshot does to the blob store.\<close>

lemma snapshot_store:
  "\<exists>d' new. snapshot H ts tgt w =
                 Inr (w\<lparr>db := d', stdout := stdout w @ [SnapshotCreated (next_rowid (db w))
                        (sum_list (map (\<lambda>(p, c). int (length c)) (regular_files (rglob tgt))))]\<rparr>,
                      next_rowid (db w))
      \<and> file_data d' = file_data (db w) @ new
      \<and> (\<forall>b \<in> set new. \<exists>(p, c) \<in> set (regular_files (rglob tgt)).
              b = \<lparr>b_hash = H c, b_content = c, b_size = int (length c)\<rparr>)
      \<and> (\<forall>(p, c) \<in> set (regular_files (rglob tgt)). H c \<in> set (map b_hash (file_data d')))
      \<and> (one_blob_per_digest (db w) \<longrightarrow> one_blob_per_digest d')
      \<and> snapshots d' = snapshots (db w) @ [\<lparr>s_id = next_rowid (db w), s_timestamp = ts\<rparr>]
      \<and> sqlite_sequence d' = next_rowid (db w)
      \<and> files d' = files (db w) @
           map (\<lambda>(p, c). file_entry H (next_rowid (db w)) p c) (regular_files (rglob tgt))"
proof -
  define P where "P = (\<lambda>(done :: (path \<times> bytes) list) d.
      (\<exists>new. file_data d = file_data (db w) @ new
         \<and> (\<forall>b \<in> set new. \<exists>(p, c) \<in> set done.
              b = \<lparr>b_hash = H c, b_content = c, b_size = int (length c)\<rparr>))
      \<and> (\<forall>(p, c) \<in> set done. H c \<in> set (map b_hash (file_data d)))
      \<and> (one_blob_per_digest (db w) \<longrightarrow> one_blob_per_digest d))"
  have init: "P [] (fst (insert_snapshot (db w) ts))"
    by (simp add: P_def insert_snapshot_eq one_blob_per_digest_def)
  have step: "P (done0 @ [(rel, c)]) d1"
    if P0: "P done0 d0" and mem: "next_rowid (db w) \<in> set (map s_id (snapshots d0))"
      and pf: "process_file H (next_rowid (db w)) rel c d0 = Inr d1"
    for done0 d0 d1 rel c
  proof -
    from P0 obtain new where new: "file_data d0 = file_data (db w) @ new"
      "\<forall>b \<in> set new. \<exists>(p, c) \<in> set done0.
              b = \<lparr>b_hash = H c, b_content = c, b_size = int (length c)\<rparr>"
      and pres: "\<forall>(p, c) \<in> set done0. H c \<in> set (map b_hash (file_data d0))"
      and dist: "one_blob_per_digest (db w) \<longrightarrow> one_blob_per_digest d0"
      unfolding P_def by blast
    show ?thesis
    proof (cases "select_blob d0 (H c) = None")
      case True
      then have absent: "H c \<notin> set (map b_hash (file_data d0))" by (simp add: select_blob_None)
      have fd: "file_data d1 = file_data d0 @ [\<lparr>b_hash = H c, b_content = c, b_size = int (length c)\<rparr>]"
        using pf True by (auto simp: process_file_eq[OF mem])
      have 1: "file_data d1 = file_data (db w) @ (new @ [\<lparr>b_hash = H c, b_content = c, b_size = int (length c)\<rparr>])"
        using fd new(1) by simp
      have 2: "\<forall>b \<in> set (new @ [\<lparr>b_hash = H c, b_content = c, b_size = int (length c)\<rparr>]).
                 \<exists>(p, c) \<in> set (done0 @ [(rel, c)]).
                   b = \<lparr>b_hash = H c, b_content = c, b_size = int (length c)\<rparr>"
        using new(2) by fastforce
      have 3: "\<forall>(p, c) \<in> set (done0 @ [(rel, c)]). H c \<in> set (map b_hash (file_data d1))"
        using pres fd by fastforce
      have 4: "one_blob_per_digest (db w) \<longrightarrow> one_blob_per_digest d1"
        using dist absent fd by (simp add: one_blob_per_digest_def)
      from 1 2 3 4 show ?thesis unfolding P_def by blast
    next
      case False
      then have present: "H c \<in> set (map b_hash (file_data d0))" by (simp add: select_blob_None)
      have fd: "file_data d1 = file_data d0"
        using pf False by (auto simp: process_file_eq[OF mem])
      have 2: "\<forall>b \<in> set new. \<exists>(p, c) \<in> set (done0 @ [(rel, c)]).
                   b = \<lparr>b_hash = H c, b_content = c, b_size = int (length c)\<rparr>"
        using new(2) by fastforce
      have 3: "\<forall>(p, c) \<in> set (done0 @ [(rel, c)]). H c \<in> set (map b_hash (file_data d1))"
        using pres present fd by fastforce
      have 4: "one_blob_per_digest (db w) \<longrightarrow> one_blob_per_digest d1"
        using dist fd by (simp add: one_blob_per_digest_def)
      from new(1) fd 2 3 4 show ?thesis unfolding P_def by auto
    qed
  qed
  have "\<exists>d'. snapshot H ts tgt w =
                 Inr (w\<lparr>db := d', stdout := stdout w @ [SnapshotCreated (next_rowid (db w))
                        (sum_list (map (\<lambda>(p, c). int (length c)) (regular_files (rglob tgt))))]\<rparr>,
                      next_rowid (db w))
              \<and> P (regular_files (rglob tgt)) d'
              \<and> snapshots d' = snapshots (db w) @ [\<lparr>s_id = next_rowid (db w), s_timestamp = ts\<rparr>]
              \<and> sqlite_sequence d' = next_rowid (db w)
              \<and> files d' = files (db w) @
                   map (\<lambda>(p, c). file_entry H (next_rowid (db w)) p c) (regular_files (rglob tgt))"
    by (rule snapshot_rule[where P = P, OF init]) (rule step)
  then obtain d' where d': "snapshot H ts tgt w =
                 Inr (w\<lparr>db := d', stdout := stdout w @ [SnapshotCreated (next_rowid (db w))
                        (sum_list (map (\<lambda>(p, c). int (length c)) (regular_files (rglob tgt))))]\<rparr>,
                      next_rowid (db w))"
     and Pd: "P (regular_files (rglob tgt)) d'"
     and rest: "snapshots d' = snapshots (db w) @ [\<lparr>s_id = next_rowid (db w), s_timestamp = ts\<rparr>]"
       "sqlite_sequence d' = next_rowid (db w)"
       "files d' = files (db w) @
           map (\<lambda>(p, c). file_entry H (next_rowid (db w)) p c) (regular_files (rglob tgt))"
    by blast
  from Pd obtain new where new: "file_data d' = file_data (db w) @ new"
      "\<forall>b \<in> set new. \<exists>(p, c) \<in> set (regular_files (rglob tgt)).
              b = \<lparr>b_hash = H c, b_content = c, b_size = int (length c)\<rparr>"
      and pres: "\<forall>(p, c) \<in> set (regular_files (rglob tgt)). H c \<in> set (map b_hash (file_data d'))"
      and dist: "one_blob_per_digest (db w) \<longrightarrow> one_blob_per_digest d'"
    unfolding P_def by blast
  show ?thesis
    apply (rule exI[of _ d'])
    apply (rule exI[of _ new])
    using d' new pres dist rest apply (intro conjI)
           apply assumption+
    done
qed

section \<open>Snapshot of a path that is not a directory\<close>

text \<open>
  Claim C4 says that \<^verbatim>\<open>snapshot\<close> fails with NotFound, and returns no id, on a path that
  does not exist or is not a directory. The function never looks at what the path is:
  \<^verbatim>\<open>resolve()\<close> is not strict and the walk of such a path is empty. On a new database and
  a missing path it returns the id 1, having stored an empty snapshot.
\<close>

theorem snapshot_missing_directory_counterexample:
  "snapshot demo_hash ''2026-11-04 12:00:00'' Missing fresh_world =
     Inr (\<lparr>db = \<lparr>snapshots = [\<lparr>s_id = 1, s_timestamp = ''2026-11-04 12:00:00''\<rparr>],
                 files = [], file_data = [], sqlite_sequence = 1\<rparr>,
           fs = Map.empty, stdout = [SnapshotCreated 1 0]\<rparr>, 1)
   \<and> snapshot demo_hash ''2026-11-04 12:00:00'' Missing fresh_world \<noteq> Inl FileNotFoundError"
  by (simp add: eval_defs)

text \<open>
  Claim C4 as amended: on a path that does not exist or is not a directory,
  \<^verbatim>\<open>snapshot\<close> succeeds; it stores a snapshot row with the next id and no file, leaves
  \<^verbatim>\<open>files\<close> and \<^verbatim>\<open>file_data\<close> as they were, reports a total size of 0 and returns the id.
\<close>

theorem snapshot_of_no_directory:
  assumes "tgt = Missing \<or> tgt = NotDirectory"
  shows "snapshot H ts tgt w =
     Inr (w\<lparr>db := (db w)\<lparr>snapshots := snapshots (db w) @ [\<lparr>s_id = next_rowid (db w), s_timestamp = ts\<rparr>],
                        sqlite_sequence := next_rowid (db w)\<rparr>,
            stdout := stdout w @ [SnapshotCreated (next_rowid (db w)) 0]\<rparr>,
          next_rowid (db w))"
  using assms by (auto simp: snapshot_def insert_snapshot_eq)

theorem snapshot_of_no_directory_witness:
  "(Missing = Missing \<or> Missing = NotDirectory) \<and>
   snapshot demo_hash ''t'' Missing fresh_world =
     Inr (fresh_world\<lparr>db := \<lparr>snapshots = [\<lparr>s_id = 1, s_timestamp = ''t''\<rparr>],
                 files = [], file_data = [], sqlite_sequence = 1\<rparr>,
           stdout := [SnapshotCreated 1 0]\<rparr>, 1)"
  using snapshot_of_no_directory[of Missing demo_hash "''t''" fresh_world]
  by (simp add: fresh_world_def init_db_def empty_db_def next_rowid_def)

section \<open>Snapshot ids\<close>

text \<open>
  Claim C9: snapshot ids are unique and strictly increasing over the life of the store.
  Whatever commands are run, from whatever state, the ids returned by the calls of
  \<^verbatim>\<open>snapshot\<close>, in the order of the calls, are strictly increasing, hence pairwise
  different; the commands may prune any snapshot in between, the one with the highest id
  included, since \<^verbatim>\<open>prune\<close> leaves the AUTOINCREMENT counter alone.
\<close>

theorem snapshot_ids_strictly_increasing:
  "sorted_wrt (<) (snd (run H cmds w)) \<and> distinct (snd (run H cmds w))"
proof -
  have s: "sorted_wrt (<) (snd (run H cmds w))"
  proof (induction cmds arbitrary: w)
    case Nil
    show ?case by simp
  next
    case (Cons c cs)
    show ?case
    proof (cases c)
      case (Snapshot ts t)
      show ?thesis
      proof (cases "snapshot H ts t w")
        case (Inl e)
        with Cons Snapshot show ?thesis by simp
      next
        case (Inr r)
        obtain w' sid where r: "r = (w', sid)" by (cases r)
        have sid: "sqlite_sequence (db w') = sid"
          using snapshot_Inr[OF Inr[unfolded r]] by simp
        have "\<forall>i \<in> set (snd (run H cs w')). sid < i"
          using run_ids_gt[of _ H cs w'] sid by simp
        moreover have "sorted_wrt (<) (snd (run H cs w'))" by (rule Cons.IH)
        moreover have "snd (run H (c # cs) w) = sid # snd (run H cs w')"
          unfolding Snapshot by (rule run_Snapshot_ids[OF Inr[unfolded r]])
        ultimately show ?thesis by simp
      qed
    qed (simp_all add: Cons.IH)
  qed
  then have "distinct (snd (run H cmds w))"
    by (simp add: strict_sorted_iff)
  with s show ?thesis by simp
qed

theorem snapshot_ids_strictly_increasing_witness:
  "snd (run demo_hash [Snapshot ''t1'' (Directory [(''a'', RegularFile [1])]), Prune 1,
                       Snapshot ''t2'' Missing] fresh_world) = [1, 2]
   \<and> sorted_wrt (<) (snd (run demo_hash [Snapshot ''t1'' (Directory [(''a'', RegularFile [1])]),
                       Prune 1, Snapshot ''t2'' Missing] fresh_world))"
  using snapshot_ids_strictly_increasing[of demo_hash
      "[Snapshot ''t1'' (Directory [(''a'', RegularFile [1])]), Prune 1, Snapshot ''t2'' Missing]"
      fresh_world]
  by (simp add: eval_defs split_beta)

section \<open>Integrity check\<close>

lemma check_loop_verified:
  "check_loop H bs = AllVerified \<longleftrightarrow> list_all (\<lambda>b. H (b_content b) = b_hash b) bs"
  by (induction bs) simp_all

lemma check_loop_skip:
  "list_all (\<lambda>b. H (b_content b) = b_hash b) pre \<Longrightarrow> check_loop H (pre @ rest) = check_loop H rest"
  by (induction pre) simp_all

lemma check_loop_corrupt:
  "check_loop H bs = CorruptionDetected h \<Longrightarrow>
     \<exists>pre b post. bs = pre @ b # post \<and> list_all (\<lambda>b. H (b_content b) = b_hash b) pre
        \<and> H (b_content b) \<noteq> b_hash b \<and> b_hash b = h"
proof (induction bs)
  case Nil
  then show ?case by simp
next
  case (Cons a bs)
  show ?case
  proof (cases "H (b_content a) = b_hash a")
    case True
    with Cons.prems have "check_loop H bs = CorruptionDetected h" by simp
    then obtain pre b post where p: "bs = pre @ b # post"
      "list_all (\<lambda>b. H (b_content b) = b_hash b) pre" "H (b_content b) \<noteq> b_hash b" "b_hash b = h"
      using Cons.IH by blast
    have "a # bs = (a # pre) @ b # post" using p(1) by simp
    moreover have "list_all (\<lambda>b. H (b_content b) = b_hash b) (a # pre)" using True p(2) by simp
    ultimately show ?thesis using p(3,4) by blast
  next
    case False
    with Cons.prems have "b_hash a = h" by simp
    moreover have "a # bs = [] @ a # bs" by simp
    moreover have "list_all (\<lambda>b. H (b_content b) = b_hash b) []" by simp
    ultimately show ?thesis using False by blast
  qed
qed

lemma check_loop_cases:
  "check_loop H bs = AllVerified \<or> (\<exists>b \<in> set bs. H (b_content b) \<noteq> b_hash b \<and> check_loop H bs = CorruptionDetected (b_hash b))"
  by (induction bs) auto

text \<open>
  Claim C7: \<^verbatim>\<open>check\<close> goes through the stored blobs in scan order, hashes the stored
  bytes of each and prints exactly one message. The message is the success message
  exactly when every blob hashes to its key; it names a digest \<open>h\<close> exactly when the
  first blob that does not hash to its key has the key \<open>h\<close> (the blobs before it are
  sound, the ones after it are not looked at). So when the blobs that no longer hash to
  their key are those of one digest \<open>h0\<close>, the report is for \<open>h0\<close>.
\<close>

theorem check_reports_first_mismatch:
  "stdout (check H w) = stdout w @ [check_loop H (file_data (db w))]
   \<and> (check_loop H (file_data (db w)) = AllVerified \<longleftrightarrow> store_ok H (db w))
   \<and> (\<forall>h. check_loop H (file_data (db w)) = CorruptionDetected h \<longleftrightarrow>
          (\<exists>pre b post. file_data (db w) = pre @ b # post
             \<and> list_all (\<lambda>b. H (b_content b) = b_hash b) pre
             \<and> H (b_content b) \<noteq> b_hash b \<and> b_hash b = h))
   \<and> (\<forall>h0. (\<exists>b \<in> set (file_data (db w)). b_hash b = h0)
           \<and> (\<forall>b \<in> set (file_data (db w)). H (b_content b) \<noteq> b_hash b \<longleftrightarrow> b_hash b = h0)
         \<longrightarrow> check_loop H (file_data (db w)) = CorruptionDetected h0)"
proof (intro conjI allI impI)
  show "stdout (check H w) = stdout w @ [check_loop H (file_data (db w))]"
    by (simp add: check_def)
  show "check_loop H (file_data (db w)) = AllVerified \<longleftrightarrow> store_ok H (db w)"
    by (simp add: check_loop_verified store_ok_def)
next
  fix h
  show "check_loop H (file_data (db w)) = CorruptionDetected h \<longleftrightarrow>
          (\<exists>pre b post. file_data (db w) = pre @ b # post
             \<and> list_all (\<lambda>b. H (b_content b) = b_hash b) pre
             \<and> H (b_content b) \<noteq> b_hash b \<and> b_hash b = h)"
  proof
    assume "check_loop H (file_data (db w)) = CorruptionDetected h"
    then show "\<exists>pre b post. file_data (db w) = pre @ b # post
             \<and> list_all (\<lambda>b. H (b_content b) = b_hash b) pre
             \<and> H (b_content b) \<noteq> b_hash b \<and> b_hash b = h"
      by (rule check_loop_corrupt)
  next
    assume "\<exists>pre b post. file_data (db w) = pre @ b # post
             \<and> list_all (\<lambda>b. H (b_content b) = b_hash b) pre
             \<and> H (b_content b) \<noteq> b_hash b \<and> b_hash b = h"
    then obtain pre b post where p: "file_data (db w) = pre @ b # post"
      "list_all (\<lambda>b. H (b_content b) = b_hash b) pre" "H (b_content b) \<noteq> b_hash b" "b_hash b = h"
      by blast
    have "check_loop H (file_data (db w)) = check_loop H (b # post)"
      unfolding p(1) by (rule check_loop_skip[OF p(2)])
    with p(3,4) show "check_loop H (file_data (db w)) = CorruptionDetected h" by simp
  qed
next
  fix h0
  assume a: "(\<exists>b \<in> set (file_data (db w)). b_hash b = h0)
           \<and> (\<forall>b \<in> set (file_data (db w)). H (b_content b) \<noteq> b_hash b \<longleftrightarrow> b_hash b = h0)"
  then have "\<not> list_all (\<lambda>b. H (b_content b) = b_hash b) (file_data (db w))"
    by (auto simp: list_all_iff)
  then have "check_loop H (file_data (db w)) \<noteq> AllVerified" by (simp add: check_loop_verified)
  then obtain b where "b \<in> set (file_data (db w))" "H (b_content b) \<noteq> b_hash b"
    "check_loop H (file_data (db w)) = CorruptionDetected (b_hash b)"
    using check_loop_cases[of H "file_data (db w)"] by blast
  with a show "check_loop H (file_data (db w)) = CorruptionDetected h0" by auto
qed

theorem check_reports_first_mismatch_witness:
  "stdout (check demo_hash
      \<lparr>db = \<lparr>snapshots = [], files = [],
              file_data = [\<lparr>b_hash = demo_hash [1], b_content = [1], b_size = 1\<rparr>,
                           \<lparr>b_hash = demo_hash [2], b_content = [3], b_size = 1\<rparr>,
                           \<lparr>b_hash = demo_hash [4], b_content = [4], b_size = 1\<rparr>],
              sqlite_sequence = 0\<rparr>, fs = Map.empty, stdout = []\<rparr>)
   = [CorruptionDetected (demo_hash [2])]
   \<and> stdout (check demo_hash fresh_world) = [AllVerified]"
  using check_reports_first_mismatch[of demo_hash
      "\<lparr>db = \<lparr>snapshots = [], files = [],
              file_data = [\<lparr>b_hash = demo_hash [1], b_content = [1], b_size = 1\<rparr>,
                           \<lparr>b_hash = demo_hash [2], b_content = [3], b_size = 1\<rparr>,
                           \<lparr>b_hash = demo_hash [4], b_content = [4], b_size = 1\<rparr>],
              sqlite_sequence = 0\<rparr>, fs = Map.empty, stdout = []\<rparr>"]
    check_reports_first_mismatch[of demo_hash fresh_world]
  by (simp add: eval_defs)

section \<open>Restore and check leave the database alone\<close>



section \<open>Prune\<close>

lemma prune_files: "files (db (prune n w)) = filter (\<lambda>f. f_snapshot_id f \<noteq> n) (files (db w))"
  by (simp add: prune_def delete_files_def delete_snapshot_def Let_def) (rule filter_cong, auto)

lemma prune_snapshots: "snapshots (db (prune n w)) = filter (\<lambda>s. s_id s \<noteq> n) (snapshots (db w))"
  by (simp add: prune_def delete_files_def delete_snapshot_def Let_def)

lemma prune_foreign_keys: "foreign_keys_ok (db w) \<Longrightarrow> foreign_keys_ok (db (prune n w))"
  by (auto simp: foreign_keys_ok_def prune_files prune_snapshots list_all_iff)

lemma prune_absent:
  assumes "foreign_keys_ok (db w)" and "n \<notin> set (map s_id (snapshots (db w)))"
  shows "db (prune n w) = db w"
proof -
  have 1: "filter (\<lambda>s. s_id s \<noteq> n) (snapshots (db w)) = snapshots (db w)"
    using assms(2) by (auto simp: filter_id_conv)
  have 2: "filter (\<lambda>f. f_snapshot_id f \<noteq> n) (files (db w)) = files (db w)"
    using assms by (auto simp: filter_id_conv foreign_keys_ok_def list_all_iff)
  show ?thesis
    by (rule database.equality) (simp_all add: prune_files prune_snapshots 1 2)
qed

text \<open>
  Claim C6: \<^verbatim>\<open>prune\<close> is one transition of the database (both deletions are committed
  together): the snapshot row with that id and every \<^verbatim>\<open>files\<close> row of that snapshot are
  gone and all other rows stay; \<^verbatim>\<open>file_data\<close> is untouched, so every blob is still
  found by its digest and a \<^verbatim>\<open>check\<close> that follows prints what it would have printed
  before, success if the store was sound; the foreign key still holds; and for an id
  that no snapshot has, the database is left exactly as it was.
\<close>

theorem prune_postcondition:
  "snapshots (db (prune n w)) = filter (\<lambda>s. s_id s \<noteq> n) (snapshots (db w))
   \<and> files (db (prune n w)) = filter (\<lambda>f. f_snapshot_id f \<noteq> n) (files (db w))
   \<and> file_data (db (prune n w)) = file_data (db w)
   \<and> select_blob (db (prune n w)) h = select_blob (db w) h
   \<and> stdout (check H (prune n w)) = stdout w @ [Pruned n, check_loop H (file_data (db w))]
   \<and> (store_ok H (db w) \<longrightarrow> stdout (check H (prune n w)) = stdout w @ [Pruned n, AllVerified])
   \<and> (foreign_keys_ok (db w) \<longrightarrow> foreign_keys_ok (db (prune n w)))
   \<and> (foreign_keys_ok (db w) \<and> n \<notin> set (map s_id (snapshots (db w))) \<longrightarrow> db (prune n w) = db w)"
proof (intro conjI impI)
  show "stdout (check H (prune n w)) = stdout w @ [Pruned n, check_loop H (file_data (db w))]"
    by (simp add: check_def) (simp add: prune_def)
  show "store_ok H (db w) \<Longrightarrow> stdout (check H (prune n w)) = stdout w @ [Pruned n, AllVerified]"
    using check_loop_verified[of H "file_data (db w)"]
    by (simp add: check_def store_ok_def) (simp add: prune_def)
  show "select_blob (db (prune n w)) h = select_blob (db w) h"
    by (simp add: select_blob_def)
qed (simp_all add: prune_files prune_snapshots prune_foreign_keys prune_absent)

theorem prune_postcondition_witness:
  "db (prune 1 \<lparr>db = \<lparr>snapshots = [\<lparr>s_id = 1, s_timestamp = ''t1''\<rparr>, \<lparr>s_id = 2, s_timestamp = ''t2''\<rparr>],
                     files = [\<lparr>f_snapshot_id = 1, f_path = ''a'', f_hash = demo_hash [1], f_size = 1\<rparr>,
                              \<lparr>f_snapshot_id = 2, f_path = ''b'', f_hash = demo_hash [2], f_size = 1\<rparr>],
                     file_data = [\<lparr>b_hash = demo_hash [1], b_content = [1], b_size = 1\<rparr>,
                                  \<lparr>b_hash = demo_hash [2], b_content = [2], b_size = 1\<rparr>],
                     sqlite_sequence = 2\<rparr>, fs = Map.empty, stdout = []\<rparr>)
   = \<lparr>snapshots = [\<lparr>s_id = 2, s_timestamp = ''t2''\<rparr>],
      files = [\<lparr>f_snapshot_id = 2, f_path = ''b'', f_hash = demo_hash [2], f_size = 1\<rparr>],
      file_data = [\<lparr>b_hash = demo_hash [1], b_content = [1], b_size = 1\<rparr>,
                   \<lparr>b_hash = demo_hash [2], b_content = [2], b_size = 1\<rparr>],
      sqlite_sequence = 2\<rparr>
   \<and> foreign_keys_ok (init_db None) \<and> 7 \<notin> set (map s_id (snapshots (init_db None)))
   \<and> db (prune 7 fresh_world) = init_db None"
  using prune_postcondition[of 7 fresh_world "[]" demo_hash]
    prune_postcondition[of 1 "\<lparr>db = \<lparr>snapshots = [\<lparr>s_id = 1, s_timestamp = ''t1''\<rparr>, \<lparr>s_id = 2, s_timestamp = ''t2''\<rparr>],
                     files = [\<lparr>f_snapshot_id = 1, f_path = ''a'', f_hash = demo_hash [1], f_size = 1\<rparr>,
                              \<lparr>f_snapshot_id = 2, f_path = ''b'', f_hash = demo_hash [2], f_size = 1\<rparr>],
                     file_data = [\<lparr>b_hash = demo_hash [1], b_content = [1], b_size = 1\<rparr>,
                                  \<lparr>b_hash = demo_hash [2], b_content = [2], b_size = 1\<rparr>],
                     sqlite_sequence = 2\<rparr>, fs = Map.empty, stdout = []\<rparr>" "[]" demo_hash]
  by (simp add: eval_defs foreign_keys_ok_def)

section \<open>Restore with a missing blob\<close>


lemma join_path_inj [simp]: "join_path out p = join_path out q \<longleftrightarrow> p = q"
  by (simp add: join_path_def)






section \<open>Order of the writes in a snapshot\<close>

lemma blobs_present_iff:
  "blobs_present d \<longleftrightarrow> (\<forall>f \<in> set (files d). f_hash f \<in> set (map b_hash (file_data d)))"
  by (simp add: blobs_present_def list_all_iff select_blob_None)

lemma snapshot_blobs_present:
  assumes "blobs_present (db w)"
  shows "\<exists>w' sid. snapshot H ts tgt w = Inr (w', sid) \<and> blobs_present (db w')"
proof -
  from snapshot_store[of H ts tgt w] obtain d' new where
    sn: "snapshot H ts tgt w =
                 Inr (w\<lparr>db := d', stdout := stdout w @ [SnapshotCreated (next_rowid (db w))
                        (sum_list (map (\<lambda>(p, c). int (length c)) (regular_files (rglob tgt))))]\<rparr>,
                      next_rowid (db w))"
    and fd: "file_data d' = file_data (db w) @ new"
    and pres: "\<forall>(p, c) \<in> set (regular_files (rglob tgt)). H c \<in> set (map b_hash (file_data d'))"
    and fl: "files d' = files (db w) @
           map (\<lambda>(p, c). file_entry H (next_rowid (db w)) p c) (regular_files (rglob tgt))"
    by blast
  have "f_hash f \<in> set (map b_hash (file_data d'))" if "f \<in> set (files d')" for f
  proof -
    from that fl consider "f \<in> set (files (db w))"
      | p c where "(p, c) \<in> set (regular_files (rglob tgt))" "f = file_entry H (next_rowid (db w)) p c"
      by auto
    then show ?thesis
    proof cases
      case 1
      then have "f_hash f \<in> set (map b_hash (file_data (db w)))"
        using assms by (simp add: blobs_present_iff)
      then show ?thesis by (simp add: fd)
    next
      case 2
      then have "H c \<in> set (map b_hash (file_data d'))" using pres by blast
      then show ?thesis using 2(2) by (simp add: file_entry_eq)
    qed
  qed
  then have "blobs_present d'" by (simp add: blobs_present_iff)
  with sn show ?thesis by simp
qed




section \<open>Deduplication\<close>

lemma blob_count_one:
  "distinct (map b_hash bs) \<Longrightarrow> h \<in> set (map b_hash bs) \<Longrightarrow>
     length (filter (\<lambda>b. b_hash b = h) bs) = 1"
proof (induction bs)
  case Nil
  then show ?case by simp
next
  case (Cons a bs)
  show ?case
  proof (cases "b_hash a = h")
    case True
    then have "h \<notin> set (map b_hash bs)" using Cons.prems(1) by simp
    then have "\<forall>b \<in> set bs. b_hash b \<noteq> h" by force
    then have "filter (\<lambda>b. b_hash b = h) bs = []" by (simp add: filter_empty_conv)
    with True show ?thesis by simp
  next
    case False
    then have "h \<in> set (map b_hash bs)" using Cons.prems(2) by auto
    moreover have "distinct (map b_hash bs)" using Cons.prems(1) by simp
    ultimately have "length (filter (\<lambda>b. b_hash b = h) bs) = 1" by (rule Cons.IH[rotated])
    with False show ?thesis by simp
  qed
qed

lemma find_append_Some: "find P xs = Some x \<Longrightarrow> find P (xs @ ys) = Some x"
  by (induction xs) (auto split: if_splits)

lemma select_blob_append:
  assumes "file_data d' = file_data d @ new" and "h \<in> set (map b_hash (file_data d))"
  shows "select_blob d' h = select_blob d h"
proof -
  from assms(2) obtain b where "select_blob d h = Some b"
    using select_blob_None[of d h] by (cases "select_blob d h") auto
  then show ?thesis using assms(1) by (simp add: select_blob_def find_append_Some)
qed

lemma put_if_absent_twice:
  "\<exists>d1. put_if_absent d h c sz = Inr d1 \<and> put_if_absent d1 h c' sz' = Inr d1"
proof (cases "select_blob d h = None")
  case True
  define d1 where "d1 = d\<lparr>file_data := file_data d @ [\<lparr>b_hash = h, b_content = c, b_size = sz\<rparr>]\<rparr>"
  have 1: "put_if_absent d h c sz = Inr d1" using True by (simp add: put_if_absent_eq d1_def)
  have "select_blob d1 h \<noteq> None" by (simp add: select_blob_None d1_def)
  then have "put_if_absent d1 h c' sz' = Inr d1" by (simp add: put_if_absent_eq)
  with 1 show ?thesis by blast
next
  case False
  then have "put_if_absent d h c sz = Inr d" and "put_if_absent d h c' sz' = Inr d"
    by (simp_all add: put_if_absent_eq)
  then show ?thesis by blast
qed

lemma snapshot_dedup:
  assumes "one_blob_per_digest (db w)"
  shows "\<exists>w1 s1. snapshot H ts tgt w = Inr (w1, s1)
      \<and> one_blob_per_digest (db w1)
      \<and> (\<forall>(p, c) \<in> set (regular_files (rglob tgt)). blob_count (db w1) (H c) = 1)
      \<and> (\<forall>h \<in> set (map b_hash (file_data (db w))).
            blob_count (db w1) h = 1 \<and> select_blob (db w1) h = select_blob (db w) h)
      \<and> ((\<forall>(p, c) \<in> set (regular_files (rglob tgt)). H c \<in> set (map b_hash (file_data (db w))))
           \<longrightarrow> file_data (db w1) = file_data (db w))"
proof -
  from snapshot_store[of H ts tgt w] obtain d' new where
    sn: "snapshot H ts tgt w =
                 Inr (w\<lparr>db := d', stdout := stdout w @ [SnapshotCreated (next_rowid (db w))
                        (sum_list (map (\<lambda>(p, c). int (length c)) (regular_files (rglob tgt))))]\<rparr>,
                      next_rowid (db w))"
    and fd: "file_data d' = file_data (db w) @ new"
    and new: "\<forall>b \<in> set new. \<exists>(p, c) \<in> set (regular_files (rglob tgt)).
              b = \<lparr>b_hash = H c, b_content = c, b_size = int (length c)\<rparr>"
    and pres: "\<forall>(p, c) \<in> set (regular_files (rglob tgt)). H c \<in> set (map b_hash (file_data d'))"
    and dist: "one_blob_per_digest (db w) \<longrightarrow> one_blob_per_digest d'"
    by blast
  have d: "distinct (map b_hash (file_data d'))"
    using dist assms by (simp add: one_blob_per_digest_def)
  have 1: "one_blob_per_digest d'" using dist assms by simp
  have 2: "\<forall>(p, c) \<in> set (regular_files (rglob tgt)). blob_count d' (H c) = 1"
    using pres blob_count_one[OF d] by (auto simp: blob_count_def)
  have 3: "\<forall>h \<in> set (map b_hash (file_data (db w))).
            blob_count d' h = 1 \<and> select_blob d' h = select_blob (db w) h"
  proof
    fix h assume h: "h \<in> set (map b_hash (file_data (db w)))"
    then have "h \<in> set (map b_hash (file_data d'))" by (simp add: fd)
    then have "blob_count d' h = 1" unfolding blob_count_def by (rule blob_count_one[OF d])
    moreover have "select_blob d' h = select_blob (db w) h" using fd h by (rule select_blob_append)
    ultimately show "blob_count d' h = 1 \<and> select_blob d' h = select_blob (db w) h" by simp
  qed
  have 4: "file_data d' = file_data (db w)"
    if all: "\<forall>(p, c) \<in> set (regular_files (rglob tgt)). H c \<in> set (map b_hash (file_data (db w)))"
  proof -
    have "set new = {}"
    proof (rule ccontr)
      assume "set new \<noteq> {}"
      then obtain b where b: "b \<in> set new" by (cases new) auto
      with new obtain p c where "(p, c) \<in> set (regular_files (rglob tgt))" "b_hash b = H c"
        by fastforce
      with all have "b_hash b \<in> set (map b_hash (file_data (db w)))" by fastforce
      moreover have "b_hash b \<in> set (map b_hash new)" using b by simp
      ultimately show False using d by (auto simp: fd)
    qed
    then show ?thesis by (simp add: fd)
  qed
  show ?thesis
    apply (rule exI[of _ "w\<lparr>db := d', stdout := stdout w @ [SnapshotCreated (next_rowid (db w))
                        (sum_list (map (\<lambda>(p, c). int (length c)) (regular_files (rglob tgt))))]\<rparr>"])
    apply (rule exI[of _ "next_rowid (db w)"])
    using sn 1 2 3 4 apply simp
    done
qed

text \<open>
  Claim C3: there is at most one stored blob for a digest, and identical bytes are
  stored once. On a store with one row for each digest, two snapshots in a row both
  succeed and keep one row for each digest; the digest of every file of either tree has
  exactly one blob afterwards, however many files of the two trees have those bytes;
  the blob of a file of the first tree is still the same row after the second
  snapshot; and when every digest of the second tree is already stored, the second
  snapshot leaves \<^verbatim>\<open>file_data\<close> as it was (only \<^verbatim>\<open>snapshots\<close> and \<^verbatim>\<open>files\<close> grow).
  Inserting a digest a second time, with whatever bytes, changes nothing.
\<close>

theorem one_blob_per_content:
  assumes "one_blob_per_digest (db w)"
  shows "(\<exists>w1 s1 w2 s2. snapshot H ts1 t1 w = Inr (w1, s1) \<and> snapshot H ts2 t2 w1 = Inr (w2, s2)
      \<and> one_blob_per_digest (db w1) \<and> one_blob_per_digest (db w2)
      \<and> (\<forall>(p, c) \<in> set (regular_files (rglob t1)).
            blob_count (db w1) (H c) = 1 \<and> blob_count (db w2) (H c) = 1
            \<and> select_blob (db w2) (H c) = select_blob (db w1) (H c))
      \<and> (\<forall>(p, c) \<in> set (regular_files (rglob t2)). blob_count (db w2) (H c) = 1)
      \<and> ((\<forall>(p, c) \<in> set (regular_files (rglob t2)). H c \<in> set (map b_hash (file_data (db w1))))
           \<longrightarrow> file_data (db w2) = file_data (db w1)))
    \<and> (\<forall>d h c sz c' sz'. \<exists>d1. put_if_absent d h c sz = Inr d1 \<and> put_if_absent d1 h c' sz' = Inr d1)"
proof (intro conjI allI)
  from snapshot_dedup[OF assms, of H ts1 t1] obtain w1 s1 where
    s1: "snapshot H ts1 t1 w = Inr (w1, s1)" and d1: "one_blob_per_digest (db w1)"
    and c1: "\<forall>(p, c) \<in> set (regular_files (rglob t1)). blob_count (db w1) (H c) = 1"
    by blast
  from snapshot_dedup[OF d1, of H ts2 t2] obtain w2 s2 where
    s2: "snapshot H ts2 t2 w1 = Inr (w2, s2)" and d2: "one_blob_per_digest (db w2)"
    and c2: "\<forall>(p, c) \<in> set (regular_files (rglob t2)). blob_count (db w2) (H c) = 1"
    and old: "\<forall>h \<in> set (map b_hash (file_data (db w1))).
            blob_count (db w2) h = 1 \<and> select_blob (db w2) h = select_blob (db w1) h"
    and same: "(\<forall>(p, c) \<in> set (regular_files (rglob t2)). H c \<in> set (map b_hash (file_data (db w1))))
           \<longrightarrow> file_data (db w2) = file_data (db w1)"
    by blast
  have mem: "H c \<in> set (map b_hash (file_data (db w1)))" if "(p, c) \<in> set (regular_files (rglob t1))" for p c
  proof (rule ccontr)
    assume "H c \<notin> set (map b_hash (file_data (db w1)))"
    then have "\<forall>b \<in> set (file_data (db w1)). b_hash b \<noteq> H c" by force
    then have "filter (\<lambda>b. b_hash b = H c) (file_data (db w1)) = []"
      by (simp add: filter_empty_conv)
    then have "blob_count (db w1) (H c) = 0" by (simp add: blob_count_def)
    with c1 that show False by fastforce
  qed
  have both: "\<forall>(p, c) \<in> set (regular_files (rglob t1)).
            blob_count (db w1) (H c) = 1 \<and> blob_count (db w2) (H c) = 1
            \<and> select_blob (db w2) (H c) = select_blob (db w1) (H c)"
    using c1 old mem by fastforce
  show "\<exists>w1 s1 w2 s2. snapshot H ts1 t1 w = Inr (w1, s1) \<and> snapshot H ts2 t2 w1 = Inr (w2, s2)
      \<and> one_blob_per_digest (db w1) \<and> one_blob_per_digest (db w2)
      \<and> (\<forall>(p, c) \<in> set (regular_files (rglob t1)).
            blob_count (db w1) (H c) = 1 \<and> blob_count (db w2) (H c) = 1
            \<and> select_blob (db w2) (H c) = select_blob (db w1) (H c))
      \<and> (\<forall>(p, c) \<in> set (regular_files (rglob t2)). blob_count (db w2) (H c) = 1)
      \<and> ((\<forall>(p, c) \<in> set (regular_files (rglob t2)). H c \<in> set (map b_hash (file_data (db w1))))
           \<longrightarrow> file_data (db w2) = file_data (db w1))"
    apply (rule exI[of _ w1], rule exI[of _ s1], rule exI[of _ w2], rule exI[of _ s2])
    using s1 s2 d1 d2 both c2 same apply (intro conjI)
          apply assumption+
    done
next
  fix d h c sz c' sz'
  show "\<exists>d1. put_if_absent d h c sz = Inr d1 \<and> put_if_absent d1 h c' sz' = Inr d1"
    by (rule put_if_absent_twice)
qed

theorem one_blob_per_content_witness:
  "one_blob_per_digest (db fresh_world)
   \<and> (case snapshot demo_hash ''t1''
              (Directory [(''a'', RegularFile [1]), (''b'', RegularFile [1])]) fresh_world of
         Inl e \<Rightarrow> False
       | Inr (w1, s1) \<Rightarrow>
           (case snapshot demo_hash ''t2'' (Directory [(''c'', RegularFile [1])]) w1 of
              Inl e \<Rightarrow> False
            | Inr (w2, s2) \<Rightarrow>
                file_data (db w1) = [\<lparr>b_hash = demo_hash [1], b_content = [1], b_size = 1\<rparr>]
                \<and> file_data (db w2) = file_data (db w1)
                \<and> blob_count (db w2) (demo_hash [1]) = 1
                \<and> length (files (db w2)) = 3))"
  using one_blob_per_content[of fresh_world demo_hash "''t1''"
      "Directory [(''a'', RegularFile [1]), (''b'', RegularFile [1])]"
      "''t2''" "Directory [(''c'', RegularFile [1])]"]
  by (simp add: eval_defs one_blob_per_digest_def blob_count_def)

section \<open>Round trip\<close>







section \<open>Listing the snapshots\<close>

lemma new_keys_seen:
  "\<forall>x \<in> set blk. x = k \<Longrightarrow> k \<in> set seen \<Longrightarrow> new_keys seen (blk @ rest) = new_keys seen rest"
  by (induction blk) simp_all

lemma new_keys_block:
  assumes "blk \<noteq> []" and "\<forall>x \<in> set blk. x = k" and "k \<notin> set seen"
  shows "new_keys seen (blk @ rest) = k # new_keys (k # seen) rest"
proof -
  from assms(1) obtain x xs where blk: "blk = x # xs" by (cases blk) auto
  with assms(2) have x: "x = k" and xs: "\<forall>x \<in> set xs. x = k" by simp_all
  have "new_keys seen (blk @ rest) = k # new_keys (k # seen) (xs @ rest)"
    using assms(3) by (simp add: blk x)
  also have "new_keys (k # seen) (xs @ rest) = new_keys (k # seen) rest"
    using xs by (rule new_keys_seen) simp
  finally show ?thesis .
qed

lemma new_keys_blocks:
  assumes "\<forall>s. blk s \<noteq> []" and "\<forall>s. \<forall>r \<in> set (blk s). fst r = s"
  shows "distinct (map s_id ss) \<Longrightarrow> set seen \<inter> s_id ` set ss = {} \<Longrightarrow>
     new_keys seen (map (\<lambda>r. s_id (fst r)) (concat (map blk ss))) = map s_id ss"
proof (induction ss arbitrary: seen)
  case Nil
  show ?case by simp
next
  case (Cons s ss)
  have ne: "map (\<lambda>r. s_id (fst r)) (blk s) \<noteq> []" using assms(1) by simp
  have all: "\<forall>x \<in> set (map (\<lambda>r. s_id (fst r)) (blk s)). x = s_id s"
    using assms(2) by auto
  have notin: "s_id s \<notin> set seen" using Cons.prems(2) by auto
  have "new_keys seen (map (\<lambda>r. s_id (fst r)) (concat (map blk (s # ss))))
        = new_keys seen (map (\<lambda>r. s_id (fst r)) (blk s) @ map (\<lambda>r. s_id (fst r)) (concat (map blk ss)))"
    by simp
  also have "\<dots> = s_id s # new_keys (s_id s # seen) (map (\<lambda>r. s_id (fst r)) (concat (map blk ss)))"
    using ne all notin by (rule new_keys_block)
  also have "new_keys (s_id s # seen) (map (\<lambda>r. s_id (fst r)) (concat (map blk ss))) = map s_id ss"
  proof (rule Cons.IH)
    show "distinct (map s_id ss)" using Cons.prems(1) by simp
    show "set (s_id s # seen) \<inter> s_id ` set ss = {}" using Cons.prems by auto
  qed
  finally show ?case by simp
qed

lemma filter_blocks_none:
  assumes "\<forall>s. \<forall>r \<in> set (blk s). fst r = s"
  shows "k \<notin> s_id ` set ss \<Longrightarrow> filter (\<lambda>r. s_id (fst r) = k) (concat (map blk ss)) = []"
proof (induction ss)
  case Nil
  show ?case by simp
next
  case (Cons a ss)
  have "\<forall>r \<in> set (blk a). s_id (fst r) \<noteq> k" using assms Cons.prems by auto
  then have "filter (\<lambda>r. s_id (fst r) = k) (blk a) = []" by (simp add: filter_empty_conv)
  moreover have "filter (\<lambda>r. s_id (fst r) = k) (concat (map blk ss)) = []"
    using Cons.prems by (intro Cons.IH) simp
  ultimately show ?case by simp
qed

lemma filter_blocks:
  assumes "\<forall>s. \<forall>r \<in> set (blk s). fst r = s"
  shows "distinct (map s_id ss) \<Longrightarrow> s \<in> set ss \<Longrightarrow>
     filter (\<lambda>r. s_id (fst r) = s_id s) (concat (map blk ss)) = blk s"
proof (induction ss)
  case Nil
  then show ?case by simp
next
  case (Cons a ss)
  show ?case
  proof (cases "a = s")
    case True
    have "\<forall>r \<in> set (blk s). s_id (fst r) = s_id s" using assms by auto
    then have 1: "filter (\<lambda>r. s_id (fst r) = s_id s) (blk s) = blk s" by (simp add: filter_id_conv)
    have "s_id s \<notin> s_id ` set ss" using Cons.prems(1) True by simp
    then have "filter (\<lambda>r. s_id (fst r) = s_id s) (concat (map blk ss)) = []"
      by (rule filter_blocks_none[OF assms])
    with 1 True show ?thesis by simp
  next
    case False
    then have mem: "s \<in> set ss" using Cons.prems(2) by simp
    then have "s_id s \<in> s_id ` set ss" by simp
    then have ne: "s_id a \<noteq> s_id s" using Cons.prems(1) by auto
    have "\<forall>r \<in> set (blk a). s_id (fst r) \<noteq> s_id s" using assms ne by auto
    then have 1: "filter (\<lambda>r. s_id (fst r) = s_id s) (blk a) = []" by (simp add: filter_empty_conv)
    have "distinct (map s_id ss)" using Cons.prems(1) by simp
    then have "filter (\<lambda>r. s_id (fst r) = s_id s) (concat (map blk ss)) = blk s"
      using mem by (rule Cons.IH)
    with 1 show ?thesis by simp
  qed
qed

lemma sql_sum_Some:
  "sql_sum (map Some xs) = (if xs = [] then None else Some (sum_list xs))"
proof -
  have "concat (map (\<lambda>x. case x of None \<Rightarrow> [] | Some v \<Rightarrow> [v]) (map Some xs)) = xs"
    by (induction xs) simp_all
  then show ?thesis by (cases xs) (simp_all add: sql_sum_def)
qed

lemma list_query_eq:
  assumes "distinct (map s_id (snapshots d))"
  shows "list_query d =
     map (\<lambda>s. (s_id s, s_timestamp s,
                sum_list (map f_size (filter (\<lambda>f. f_snapshot_id f = s_id s) (files d)))))
         (snapshots d)"
proof -
  define blk where "blk = (\<lambda>s :: snapshot_row. let matching = filter (\<lambda>f. f_snapshot_id f = s_id s) (files d)
                      in if matching = [] then [(s, None)]
                         else map (\<lambda>f. (s, Some f)) matching)"
  define agg where "agg = (\<lambda>g :: (snapshot_row \<times> file_row option) list. case g of
                        [] \<Rightarrow> []
                      | r # rs \<Rightarrow> [(s_id (fst r), s_timestamp (fst r),
                                    coalesce (sql_sum (map (\<lambda>x. map_option f_size (snd x)) (r # rs))) 0)])"
  have lj: "left_join d = concat (map blk (snapshots d))"
    by (simp add: left_join_def blk_def)
  have ne: "\<forall>s. blk s \<noteq> []" by (simp add: blk_def Let_def)
  have fstb: "\<forall>s. \<forall>r \<in> set (blk s). fst r = s"
    by (auto simp: blk_def Let_def split: if_splits)
  have keys: "group_keys (left_join d) = map s_id (snapshots d)"
    unfolding group_keys_def lj
    by (rule new_keys_blocks[OF ne fstb assms]) simp
  have "group_by_id (left_join d) =
          map (\<lambda>s. filter (\<lambda>r. s_id (fst r) = s_id s) (concat (map blk (snapshots d)))) (snapshots d)"
    by (simp add: group_by_id_def keys[unfolded lj] lj comp_def)
  also have "\<dots> = map blk (snapshots d)"
    by (rule map_cong[OF refl]) (rule filter_blocks[OF fstb assms])
  finally have groups: "group_by_id (left_join d) = map blk (snapshots d)" .
  have agg_blk: "agg (blk s) = [(s_id s, s_timestamp s,
                sum_list (map f_size (filter (\<lambda>f. f_snapshot_id f = s_id s) (files d))))]" for s
  proof (cases "filter (\<lambda>f. f_snapshot_id f = s_id s) (files d) = []")
    case True
    then have "blk s = [(s, None)]" by (simp add: blk_def)
    then show ?thesis using True by (simp add: agg_def sql_sum_def coalesce_def)
  next
    case False
    let ?m = "filter (\<lambda>f. f_snapshot_id f = s_id s) (files d)"
    from False obtain f fs where m: "?m = f # fs" by (cases ?m) auto
    have b: "blk s = map (\<lambda>f. (s, Some f)) ?m" using False by (simp add: blk_def)
    have e: "map (\<lambda>x. map_option f_size (snd x)) (blk s) = map Some (map f_size ?m)"
      by (simp add: b comp_def)
    have ne2: "map f_size ?m \<noteq> []" using False by simp
    have "sql_sum (map (\<lambda>x. map_option f_size (snd x)) (blk s)) = Some (sum_list (map f_size ?m))"
      unfolding e sql_sum_Some using ne2 by (simp only: if_False)
    moreover have "blk s = (s, Some f) # map (\<lambda>f. (s, Some f)) fs" by (simp add: b m)
    ultimately show ?thesis by (simp add: agg_def coalesce_def)
  qed
  have "list_query d = concat (map agg (group_by_id (left_join d)))"
    by (simp add: list_query_def agg_def)
  also have "\<dots> = concat (map (\<lambda>s. agg (blk s)) (snapshots d))"
    by (simp add: groups comp_def)
  also have "\<dots> = concat (map (\<lambda>s. [(s_id s, s_timestamp s,
                sum_list (map f_size (filter (\<lambda>f. f_snapshot_id f = s_id s) (files d))))]) (snapshots d))"
    by (simp add: agg_blk)
  also have "\<dots> = map (\<lambda>s. (s_id s, s_timestamp s,
                sum_list (map f_size (filter (\<lambda>f. f_snapshot_id f = s_id s) (files d))))) (snapshots d)"
    by (induction "snapshots d") simp_all
  finally show ?thesis .
qed

text \<open>
  Claim C8: the listing has one row for each snapshot, in ascending order of the ids,
  with the id, the timestamp and the sum of the sizes of the \<^verbatim>\<open>files\<close> rows of that
  snapshot, which is 0 for a snapshot without files (the \<^verbatim>\<open>COALESCE\<close> of the NULL sum
  of the one row that the left join keeps for it). The rows are what \<^verbatim>\<open>list_snapshots\<close>
  prints after its header. The table \<^verbatim>\<open>snapshots\<close> is taken in its storage order,
  ascending in the id.
\<close>

theorem list_snapshots_rows:
  assumes "snapshots_ascending (db w)"
  shows "list_query (db w) =
           map (\<lambda>s. (s_id s, s_timestamp s,
                      sum_list (map f_size (filter (\<lambda>f. f_snapshot_id f = s_id s) (files (db w))))))
               (snapshots (db w))
     \<and> stdout (list_snapshots w) =
           stdout w @ ListHeader #
             map (\<lambda>s. ListRow (s_id s) (s_timestamp s)
                      (sum_list (map f_size (filter (\<lambda>f. f_snapshot_id f = s_id s) (files (db w))))))
                 (snapshots (db w))
     \<and> map fst (list_query (db w)) = map s_id (snapshots (db w))
     \<and> sorted_wrt (<) (map fst (list_query (db w)))
     \<and> (\<forall>s \<in> set (snapshots (db w)).
           (\<forall>f \<in> set (files (db w)). f_snapshot_id f \<noteq> s_id s) \<longrightarrow>
           (s_id s, s_timestamp s, 0) \<in> set (list_query (db w)))"
proof -
  let ?total = "\<lambda>s :: snapshot_row.
      sum_list (map f_size (filter (\<lambda>f. f_snapshot_id f = s_id s) (files (db w))))"
  have asc: "sorted_wrt (<) (map s_id (snapshots (db w)))"
    using assms by (simp add: snapshots_ascending_def)
  then have "distinct (map s_id (snapshots (db w)))" by (simp add: strict_sorted_iff)
  then have q: "list_query (db w) = map (\<lambda>s. (s_id s, s_timestamp s, ?total s)) (snapshots (db w))"
    by (rule list_query_eq)
  have ids: "map fst (list_query (db w)) = map s_id (snapshots (db w))"
    by (simp add: q comp_def)
  have out: "stdout (list_snapshots w) =
           stdout w @ ListHeader # map (\<lambda>s. ListRow (s_id s) (s_timestamp s) (?total s)) (snapshots (db w))"
    by (simp add: list_snapshots_def q comp_def)
  have zero: "(s_id s, s_timestamp s, 0) \<in> set (list_query (db w))"
    if s: "s \<in> set (snapshots (db w))" and none: "\<forall>f \<in> set (files (db w)). f_snapshot_id f \<noteq> s_id s" for s
  proof -
    from none have "filter (\<lambda>f. f_snapshot_id f = s_id s) (files (db w)) = []"
      by (simp add: filter_empty_conv)
    then have "?total s = 0" by simp
    then have "(s_id s, s_timestamp s, 0) = (\<lambda>s. (s_id s, s_timestamp s, ?total s)) s" by simp
    also have "\<dots> \<in> set (map (\<lambda>s. (s_id s, s_timestamp s, ?total s)) (snapshots (db w)))"
      using s by (rule imageI[of s "set (snapshots (db w))", folded set_map])
    finally show ?thesis by (simp only: q)
  qed
  from q out ids asc zero show ?thesis by (simp only: ids) blast
qed

theorem list_snapshots_rows_witness:
  "snapshots_ascending
      \<lparr>snapshots = [\<lparr>s_id = 1, s_timestamp = ''t1''\<rparr>, \<lparr>s_id = 3, s_timestamp = ''t3''\<rparr>],
       files = [\<lparr>f_snapshot_id = 1, f_path = ''a'', f_hash = ''h1'', f_size = 3\<rparr>,
                \<lparr>f_snapshot_id = 1, f_path = ''b'', f_hash = ''h2'', f_size = 4\<rparr>],
       file_data = [], sqlite_sequence = 3\<rparr>
   \<and> list_query
      \<lparr>snapshots = [\<lparr>s_id = 1, s_timestamp = ''t1''\<rparr>, \<lparr>s_id = 3, s_timestamp = ''t3''\<rparr>],
       files = [\<lparr>f_snapshot_id = 1, f_path = ''a'', f_hash = ''h1'', f_size = 3\<rparr>,
                \<lparr>f_snapshot_id = 1, f_path = ''b'', f_hash = ''h2'', f_size = 4\<rparr>],
       file_data = [], sqlite_sequence = 3\<rparr> = [(1, ''t1'', 7), (3, ''t3'', 0)]"
  using list_snapshots_rows[of
     "\<lparr>db = \<lparr>snapshots = [\<lparr>s_id = 1, s_timestamp = ''t1''\<rparr>, \<lparr>s_id = 3, s_timestamp = ''t3''\<rparr>],
       files = [\<lparr>f_snapshot_id = 1, f_path = ''a'', f_hash = ''h1'', f_size = 3\<rparr>,
                \<lparr>f_snapshot_id = 1, f_path = ''b'', f_hash = ''h2'', f_size = 4\<rparr>],
       file_data = [], sqlite_sequence = 3\<rparr>, fs = Map.empty, stdout = []\<rparr>"]
  by (simp add: snapshots_ascending_def)

section \<open>The states the commands reach\<close>

text \<open>
  The properties assumed of the database in the statements above hold of a new
  database and are kept by every command, so they hold after any run.
\<close>

lemma fresh_world_invariant: "db_invariant H (db fresh_world)"
  by (simp add: db_invariant_def fresh_world_def init_db_def empty_db_def snapshots_ascending_def
      foreign_keys_ok_def one_blob_per_digest_def store_ok_def blobs_present_def)

lemma snapshot_invariant:
  assumes inv: "db_invariant H (db w)" and sn: "snapshot H ts tgt w = Inr (w', sid)"
  shows "db_invariant H (db w')"
proof -
  from snapshot_store[of H ts tgt w] obtain d' new where
    sn': "snapshot H ts tgt w =
                 Inr (w\<lparr>db := d', stdout := stdout w @ [SnapshotCreated (next_rowid (db w))
                        (sum_list (map (\<lambda>(p, c). int (length c)) (regular_files (rglob tgt))))]\<rparr>,
                      next_rowid (db w))"
    and fd: "file_data d' = file_data (db w) @ new"
    and new: "\<forall>b \<in> set new. \<exists>(p, c) \<in> set (regular_files (rglob tgt)).
              b = \<lparr>b_hash = H c, b_content = c, b_size = int (length c)\<rparr>"
    and dist: "one_blob_per_digest (db w) \<longrightarrow> one_blob_per_digest d'"
    and sns: "snapshots d' = snapshots (db w) @ [\<lparr>s_id = next_rowid (db w), s_timestamp = ts\<rparr>]"
    and fl: "files d' = files (db w) @
           map (\<lambda>(p, c). file_entry H (next_rowid (db w)) p c) (regular_files (rglob tgt))"
    by blast
  from sn sn' have w': "db w' = d'" by auto
  have 1: "snapshots_ascending d'"
    using inv next_rowid_gt_ids[of _ "db w"]
    by (auto simp: db_invariant_def snapshots_ascending_def sns sorted_wrt_append)
  have 2: "foreign_keys_ok d'"
  proof -
    have "f_snapshot_id f \<in> set (map s_id (snapshots d'))" if "f \<in> set (files d')" for f
    proof -
      from that fl consider "f \<in> set (files (db w))"
        | p c where "f = file_entry H (next_rowid (db w)) p c" by auto
      then show ?thesis
      proof cases
        case 1
        then have "f_snapshot_id f \<in> set (map s_id (snapshots (db w)))"
          using inv by (simp add: db_invariant_def foreign_keys_ok_def list_all_iff)
        then show ?thesis by (simp add: sns)
      next
        case 2
        then show ?thesis by (simp add: sns file_entry_eq)
      qed
    qed
    then show ?thesis by (simp add: foreign_keys_ok_def list_all_iff)
  qed
  have 3: "one_blob_per_digest d'" using inv dist by (simp add: db_invariant_def)
  have 4: "store_ok H d'"
  proof -
    have "H (b_content b) = b_hash b" if "b \<in> set new" for b
      using new that by fastforce
    then show ?thesis using inv by (simp add: db_invariant_def store_ok_def list_all_iff fd) blast
  qed
  have "blobs_present (db w)" using inv by (simp add: db_invariant_def)
  from snapshot_blobs_present[OF this, of H ts tgt] sn have 5: "blobs_present (db w')" by auto
  from 1 2 3 4 5 show ?thesis by (simp add: db_invariant_def w')
qed

lemma prune_invariant:
  assumes "db_invariant H (db w)"
  shows "db_invariant H (db (prune n w))"
proof -
  have 1: "snapshots_ascending (db (prune n w))"
    using assms
    by (simp add: db_invariant_def snapshots_ascending_def prune_snapshots sorted_wrt_map sorted_wrt_filter)
  have 2: "foreign_keys_ok (db (prune n w))"
    using assms by (simp add: db_invariant_def prune_foreign_keys)
  have 3: "one_blob_per_digest (db (prune n w))" "store_ok H (db (prune n w))"
    using assms by (simp_all add: db_invariant_def one_blob_per_digest_def store_ok_def)
  have 4: "blobs_present (db (prune n w))"
    using assms by (simp add: db_invariant_def blobs_present_iff prune_files)
  from 1 2 3 4 show ?thesis by (simp add: db_invariant_def)
qed

lemma run_invariant:
  "db_invariant H (db w) \<Longrightarrow> db_invariant H (db (fst (run H cmds w)))"
proof (induction cmds arbitrary: w)
  case Nil
  then show ?case by simp
next
  case (Cons c cs)
  show ?case
  proof (cases c)
    case (Snapshot ts t)
    show ?thesis
    proof (cases "snapshot H ts t w")
      case (Inl e)
      with Cons Snapshot show ?thesis by simp
    next
      case (Inr r)
      obtain w' sid where r: "r = (w', sid)" by (cases r)
      have "db_invariant H (db w')"
        using Cons.prems Inr[unfolded r] by (rule snapshot_invariant)
      then have "db_invariant H (db (fst (run H cs w')))" by (rule Cons.IH)
      then show ?thesis by (simp add: Snapshot Inr r split_beta)
    qed
  next
    case ListSnapshots
    have "db_invariant H (db (list_snapshots w))" using Cons.prems by simp
    then have "db_invariant H (db (fst (run H cs (list_snapshots w))))" by (rule Cons.IH)
    then show ?thesis by (simp add: ListSnapshots)
  next
    case (Restore n out)
    have "db_invariant H (db (restore n out w))" using Cons.prems by simp
    then have "db_invariant H (db (fst (run H cs (restore n out w))))" by (rule Cons.IH)
    then show ?thesis by (simp add: Restore)
  next
    case (Prune n)
    have "db_invariant H (db (prune n w))" using Cons.prems by (rule prune_invariant)
    then have "db_invariant H (db (fst (run H cs (prune n w))))" by (rule Cons.IH)
    then show ?thesis by (simp add: Prune)
  next
    case Check
    have "db_invariant H (db (check H w))" using Cons.prems by simp
    then have "db_invariant H (db (fst (run H cs (check H w))))" by (rule Cons.IH)
    then show ?thesis by (simp add: Check)
  qed
qed

lemma reachable_invariant: "db_invariant H (db (fst (run H cmds fresh_world)))"
  using fresh_world_invariant by (rule run_invariant)

end
